theory Spec2Isabelle
  imports Complex_Main "HOL-Library.While_Combinator" "HOL-Library.Multiset" "HOL-Library.Log_Nat"
begin

section \<open>Data model of cpusimulator.py\<close>

text \<open>
  The dataclass \<open>Process\<close>.  Python integers are unbounded, so every numeric field is an
  \<open>int\<close>; the two optional timestamps are \<open>int option\<close>.  A dataclass compares by value
  (the generated \<open>__eq__\<close> compares all seven fields), which is HOL equality on the record.
\<close>

record Process =
  pid :: int
  arrival_time :: int
  burst_time :: int
  priority :: int
  remaining_time :: int
  start_time :: "int option"
  completion_time :: "int option"

definition turnaround_time :: "Process \<Rightarrow> int option" where
  "turnaround_time p =
     (case completion_time p of None \<Rightarrow> None | Some c \<Rightarrow> Some (c - arrival_time p))"

definition waiting_time :: "Process \<Rightarrow> int option" where
  "waiting_time p =
     (case turnaround_time p of None \<Rightarrow> None | Some t \<Rightarrow> Some (t - burst_time p))"

text \<open>
  The object \<open>self\<close>: the caller's list and the list of fresh records of the current run.
  The records of \<open>processes\<close> are mutable objects shared between \<open>self.processes\<close> and the
  queues of a run; an object is identified by its position in \<open>processes\<close>, and the
  queues hold positions.
\<close>

record Scheduler =
  original_processes :: "Process list"
  processes :: "Process list"

definition clone :: "Process \<Rightarrow> Process" where
  "clone p = \<lparr>pid = pid p, arrival_time = arrival_time p, burst_time = burst_time p,
     priority = priority p, remaining_time = burst_time p,
     start_time = None, completion_time = None\<rparr>"

definition reset_processes :: "Scheduler \<Rightarrow> Scheduler" where
  "reset_processes self = self\<lparr>processes := map clone (original_processes self)\<rparr>"

definition Scheduler_init :: "Process list \<Rightarrow> Scheduler" where
  "Scheduler_init ps = reset_processes \<lparr>original_processes = ps, processes = []\<rparr>"

subsection \<open>Python numbers\<close>

text \<open>
  The exceptions that a policy method can raise: \<open>ZeroDivisionError\<close> and \<open>OverflowError\<close>
  from the divisions of \<open>get_metrics\<close>, \<open>IndexError\<close> from the list of queues of Multilevel
  Queue, and \<open>StatisticsError\<close> from \<open>statistics.mean\<close> on an empty sequence.
\<close>

datatype error = ZeroDivisionError | IndexError | OverflowError | StatisticsError

text \<open>
  A Python \<open>float\<close> is an IEEE 754 double.  A finite double is represented by its exact
  value, a rational number; an \<open>int\<close> is its own value.  Python compares numbers by value
  (\<open>7 == 7.0\<close>, \<open>0.0 == -0.0\<close>), so this keeps what \<open>==\<close> can see.  A product of floats that
  is too large is an infinity.
\<close>

datatype number = Finite rat | PosInf | NegInf

text \<open>Rounding to the nearest integer, a tie to the even one.\<close>

definition round_half_even :: "rat \<Rightarrow> int" where
  "round_half_even q =
     (let f = \<lfloor>q\<rfloor> in
      if q - of_int f < 1 / 2 then f
      else if 1 / 2 < q - of_int f then f + 1
      else if even f then f else f + 1)"

text \<open>
  The exponent \<open>e\<close> with \<open>2 ^ e \<le> \<bar>q\<bar> < 2 ^ (e + 1)\<close> of a rational \<open>q \<noteq> 0\<close>, from the bit
  lengths of its numerator and denominator.
\<close>

definition binade :: "rat \<Rightarrow> int" where
  "binade q =
     (case quotient_of \<bar>q\<bar> of (a, b) \<Rightarrow>
        let d = bitlen a - bitlen b in if 2 powi d \<le> \<bar>q\<bar> then d else d - 1)"

text \<open>
  The double nearest to \<open>q\<close>: 53 significant bits, the smallest spacing \<open>2 ^ (- 1074)\<close> of
  the subnormal numbers, ties to even.  The largest double is \<open>2 ^ 1024 - 2 ^ 971\<close>; a value
  of magnitude \<open>2 ^ 1024 - 2 ^ 970\<close> or more rounds beyond it.
\<close>

definition nearest_double :: "rat \<Rightarrow> rat" where
  "nearest_double q =
     (if q = 0 then 0
      else let u = max (binade q - 52) (- 1074)
           in of_int (round_half_even (q / 2 powi u)) * 2 powi u)"

definition overflows :: "rat \<Rightarrow> bool" where
  "overflows q \<longleftrightarrow> 2 ^ 1024 - 2 ^ 970 \<le> \<bar>q\<bar>"

text \<open>
  \<open>a / b\<close> on two \<open>int\<close>: the correctly rounded quotient, \<open>ZeroDivisionError\<close> for a zero
  divisor, \<open>OverflowError\<close> when the quotient is too large for a float.
\<close>

definition true_div :: "int \<Rightarrow> int \<Rightarrow> error + rat" where
  "true_div a b =
     (if b = 0 then Inl ZeroDivisionError
      else if overflows (of_int a / of_int b) then Inl OverflowError
      else Inr (nearest_double (of_int a / of_int b)))"

text \<open>\<open>x * y\<close> on two floats: the rounded product; it raises nothing and overflows to an infinity.\<close>

definition float_mul :: "rat \<Rightarrow> rat \<Rightarrow> number" where
  "float_mul x y =
     (if overflows (x * y) then (if 0 < x * y then PosInf else NegInf)
      else Finite (nearest_double (x * y)))"

text \<open>
  \<open>statistics.mean\<close> on a sequence of \<open>int\<close>.  It computes the exact fraction \<open>total / n\<close>; a
  mean that is an integer is returned as an \<open>int\<close>, any other mean is converted to a float
  (numerator \<open>/\<close> denominator of the reduced fraction, which is the rounded quotient of
  \<open>total\<close> and \<open>n\<close>), and this conversion raises \<open>OverflowError\<close> when the mean is too large.
\<close>

definition mean :: "int list \<Rightarrow> error + rat" where
  "mean xs =
     (if xs = [] then Inl StatisticsError
      else let total = sum_list xs; n = int (length xs)
           in if total mod n = 0 then Inr (of_int (total div n)) else true_div total n)"

subsection \<open>Metrics\<close>

text \<open>
  The dictionary returned by \<open>get_metrics\<close>.  The two averages are an \<open>int\<close> or a finite float
  and the throughput is a finite float; the utilisation is a product of floats.
\<close>

record Metrics =
  avg_turnaround_time :: rat
  avg_waiting_time :: rat
  throughput :: rat
  cpu_utilization :: number

text \<open>\<open>max(p.completion_time for p in completed_processes)\<close>, on a list that is not empty.\<close>

definition max_completion_time :: "Process list \<Rightarrow> int" where
  "max_completion_time completed =
     (let cs = map (\<lambda>p. the (completion_time p)) completed in fold max (tl cs) (hd cs))"

text \<open>
  The entries of the dictionary are evaluated in the order in which they are written, and the
  first exception leaves the method.
\<close>

definition get_metrics :: "Scheduler \<Rightarrow> error + Metrics" where
  "get_metrics self =
     (let completed = filter (\<lambda>p. completion_time p \<noteq> None) (processes self) in
      if completed = [] then
        Inr \<lparr>avg_turnaround_time = 0, avg_waiting_time = 0, throughput = 0,
             cpu_utilization = Finite 0\<rparr>
      else
        case mean (map (\<lambda>p. the (turnaround_time p)) completed) of
          Inl e \<Rightarrow> Inl e
        | Inr tt \<Rightarrow>
        (case mean (map (\<lambda>p. the (waiting_time p)) completed) of
          Inl e \<Rightarrow> Inl e
        | Inr wt \<Rightarrow>
        (case true_div (int (length completed)) (max_completion_time completed) of
          Inl e \<Rightarrow> Inl e
        | Inr th \<Rightarrow>
        (case true_div (sum_list (map burst_time completed)) (max_completion_time completed) of
          Inl e \<Rightarrow> Inl e
        | Inr u \<Rightarrow>
          Inr \<lparr>avg_turnaround_time = tt, avg_waiting_time = wt, throughput = th,
               cpu_utilization = float_mul u 100\<rparr>))))"

section \<open>The state of a run\<close>

text \<open>
  A policy method works on \<open>self\<close> and on its local variables.  The six single-queue
  policies have \<open>current_time\<close>, \<open>ready_queue\<close> and \<open>completed_processes\<close>; Multilevel
  Queue has \<open>queues\<close> in place of \<open>ready_queue\<close>.
\<close>

record run_base = Scheduler +
  current_time :: int
  completed_processes :: "nat list"

record run_state = run_base +
  ready_queue :: "nat list"

record mlq_state = run_base +
  queues :: "nat list list"

text \<open>\<open>process in xs\<close> on a list of objects: some element is equal by value.\<close>

definition obj_in :: "Process list \<Rightarrow> nat \<Rightarrow> nat list \<Rightarrow> bool" where
  "obj_in ps i xs = (\<exists>j \<in> set xs. ps ! j = ps ! i)"

text \<open>The admission scan shared by the six single-queue policies.\<close>

definition admit_one :: "Process list \<Rightarrow> int \<Rightarrow> nat list \<Rightarrow> nat \<Rightarrow> nat list \<Rightarrow> nat list" where
  "admit_one ps t done i rq =
     (if arrival_time (ps ! i) \<le> t \<and> \<not> obj_in ps i done \<and> \<not> obj_in ps i rq
      then rq @ [i] else rq)"

definition admit :: "Process list \<Rightarrow> int \<Rightarrow> nat list \<Rightarrow> nat list \<Rightarrow> nat list" where
  "admit ps t done rq = fold (admit_one ps t done) [0..<length ps] rq"

definition set_start :: "int \<Rightarrow> Process \<Rightarrow> Process" where
  "set_start t p = (if start_time p = None then p\<lparr>start_time := Some t\<rparr> else p)"

definition loop_cond :: "'a run_base_scheme \<Rightarrow> bool" where
  "loop_cond s \<longleftrightarrow> length (completed_processes s) < length (processes s)"

definition start_run :: "Scheduler \<Rightarrow> run_state" where
  "start_run self =
     \<lparr>original_processes = original_processes self, processes = processes self,
      current_time = 0, completed_processes = [], ready_queue = []\<rparr>"

definition the_scheduler :: "'a run_base_scheme \<Rightarrow> Scheduler" where
  "the_scheduler s = \<lparr>original_processes = original_processes s, processes = processes s\<rparr>"

definition finish :: "'a run_base_scheme \<Rightarrow> (error + Metrics) \<times> Scheduler" where
  "finish s = (get_metrics (the_scheduler s), the_scheduler s)"

section \<open>The six single-queue policies\<close>

definition fcfs_step :: "run_state \<Rightarrow> run_state" where
  "fcfs_step s =
     (let rq = admit (processes s) (current_time s) (completed_processes s) (ready_queue s)
      in if rq = [] then s\<lparr>current_time := current_time s + 1, ready_queue := rq\<rparr>
      else
        let i = hd rq;
            p = set_start (current_time s) (processes s ! i);
            t = current_time s + remaining_time p
        in s\<lparr>processes := (processes s)[i := p\<lparr>remaining_time := 0, completion_time := Some t\<rparr>],
             current_time := t,
             completed_processes := completed_processes s @ [i],
             ready_queue := tl rq\<rparr>)"

definition fcfs_run :: "Scheduler \<Rightarrow> run_state option" where
  "fcfs_run self = while_option loop_cond fcfs_step (start_run (reset_processes self))"

definition fcfs :: "Scheduler \<Rightarrow> ((error + Metrics) \<times> Scheduler) option" where
  "fcfs self = map_option finish (fcfs_run self)"

definition sjf_nonpreemptive_step :: "run_state \<Rightarrow> run_state" where
  "sjf_nonpreemptive_step s =
     (let rq = admit (processes s) (current_time s) (completed_processes s) (ready_queue s)
      in if rq = [] then s\<lparr>current_time := current_time s + 1, ready_queue := rq\<rparr>
      else
        let rq = sort_key (\<lambda>j. remaining_time (processes s ! j)) rq;
            i = hd rq;
            p = set_start (current_time s) (processes s ! i);
            t = current_time s + remaining_time p
        in s\<lparr>processes := (processes s)[i := p\<lparr>remaining_time := 0, completion_time := Some t\<rparr>],
             current_time := t,
             completed_processes := completed_processes s @ [i],
             ready_queue := tl rq\<rparr>)"

definition sjf_nonpreemptive_run :: "Scheduler \<Rightarrow> run_state option" where
  "sjf_nonpreemptive_run self =
     while_option loop_cond sjf_nonpreemptive_step (start_run (reset_processes self))"

definition sjf_nonpreemptive :: "Scheduler \<Rightarrow> ((error + Metrics) \<times> Scheduler) option" where
  "sjf_nonpreemptive self = map_option finish (sjf_nonpreemptive_run self)"

definition sjf_preemptive_step :: "run_state \<Rightarrow> run_state" where
  "sjf_preemptive_step s =
     (let rq = admit (processes s) (current_time s) (completed_processes s) (ready_queue s)
      in if rq = [] then s\<lparr>current_time := current_time s + 1, ready_queue := rq\<rparr>
      else
        let rq = sort_key (\<lambda>j. remaining_time (processes s ! j)) rq;
            i = hd rq;
            p = set_start (current_time s) (processes s ! i);
            p = p\<lparr>remaining_time := remaining_time p - 1\<rparr>;
            t = current_time s + 1
        in if remaining_time p = 0
           then s\<lparr>processes := (processes s)[i := p\<lparr>completion_time := Some t\<rparr>],
                  current_time := t,
                  completed_processes := completed_processes s @ [i],
                  ready_queue := tl rq\<rparr>
           else s\<lparr>processes := (processes s)[i := p], current_time := t, ready_queue := rq\<rparr>)"

definition sjf_preemptive_run :: "Scheduler \<Rightarrow> run_state option" where
  "sjf_preemptive_run self =
     while_option loop_cond sjf_preemptive_step (start_run (reset_processes self))"

definition sjf_preemptive :: "Scheduler \<Rightarrow> ((error + Metrics) \<times> Scheduler) option" where
  "sjf_preemptive self = map_option finish (sjf_preemptive_run self)"

definition round_robin_step :: "int \<Rightarrow> run_state \<Rightarrow> run_state" where
  "round_robin_step quantum s =
     (let rq = admit (processes s) (current_time s) (completed_processes s) (ready_queue s)
      in if rq = [] then s\<lparr>current_time := current_time s + 1, ready_queue := rq\<rparr>
      else
        let i = hd rq;
            rq = tl rq;
            p = set_start (current_time s) (processes s ! i);
            execution_time = min quantum (remaining_time p);
            p = p\<lparr>remaining_time := remaining_time p - execution_time\<rparr>;
            t = current_time s + execution_time
        in if remaining_time p = 0
           then s\<lparr>processes := (processes s)[i := p\<lparr>completion_time := Some t\<rparr>],
                  current_time := t,
                  completed_processes := completed_processes s @ [i],
                  ready_queue := rq\<rparr>
           else s\<lparr>processes := (processes s)[i := p], current_time := t,
                  ready_queue := rq @ [i]\<rparr>)"

definition round_robin_run :: "int \<Rightarrow> Scheduler \<Rightarrow> run_state option" where
  "round_robin_run quantum self =
     while_option loop_cond (round_robin_step quantum) (start_run (reset_processes self))"

definition round_robin :: "int \<Rightarrow> Scheduler \<Rightarrow> ((error + Metrics) \<times> Scheduler) option" where
  "round_robin quantum self = map_option finish (round_robin_run quantum self)"

definition priority_nonpreemptive_step :: "run_state \<Rightarrow> run_state" where
  "priority_nonpreemptive_step s =
     (let rq = admit (processes s) (current_time s) (completed_processes s) (ready_queue s)
      in if rq = [] then s\<lparr>current_time := current_time s + 1, ready_queue := rq\<rparr>
      else
        let rq = sort_key (\<lambda>j. priority (processes s ! j)) rq;
            i = hd rq;
            p = set_start (current_time s) (processes s ! i);
            t = current_time s + remaining_time p
        in s\<lparr>processes := (processes s)[i := p\<lparr>remaining_time := 0, completion_time := Some t\<rparr>],
             current_time := t,
             completed_processes := completed_processes s @ [i],
             ready_queue := tl rq\<rparr>)"

definition priority_nonpreemptive_run :: "Scheduler \<Rightarrow> run_state option" where
  "priority_nonpreemptive_run self =
     while_option loop_cond priority_nonpreemptive_step (start_run (reset_processes self))"

definition priority_nonpreemptive :: "Scheduler \<Rightarrow> ((error + Metrics) \<times> Scheduler) option" where
  "priority_nonpreemptive self = map_option finish (priority_nonpreemptive_run self)"

definition priority_preemptive_step :: "run_state \<Rightarrow> run_state" where
  "priority_preemptive_step s =
     (let rq = admit (processes s) (current_time s) (completed_processes s) (ready_queue s)
      in if rq = [] then s\<lparr>current_time := current_time s + 1, ready_queue := rq\<rparr>
      else
        let rq = sort_key (\<lambda>j. priority (processes s ! j)) rq;
            i = hd rq;
            p = set_start (current_time s) (processes s ! i);
            p = p\<lparr>remaining_time := remaining_time p - 1\<rparr>;
            t = current_time s + 1
        in if remaining_time p = 0
           then s\<lparr>processes := (processes s)[i := p\<lparr>completion_time := Some t\<rparr>],
                  current_time := t,
                  completed_processes := completed_processes s @ [i],
                  ready_queue := tl rq\<rparr>
           else s\<lparr>processes := (processes s)[i := p], current_time := t, ready_queue := rq\<rparr>)"

definition priority_preemptive_run :: "Scheduler \<Rightarrow> run_state option" where
  "priority_preemptive_run self =
     while_option loop_cond priority_preemptive_step (start_run (reset_processes self))"

definition priority_preemptive :: "Scheduler \<Rightarrow> ((error + Metrics) \<times> Scheduler) option" where
  "priority_preemptive self = map_option finish (priority_preemptive_run self)"

section \<open>Multilevel Queue\<close>

text \<open>
  Indexing a Python list of length \<open>n\<close>: a negative index counts from the end, and an
  index outside \<open>-n .. n-1\<close> raises \<open>IndexError\<close> (here \<open>None\<close>).
\<close>

definition list_index :: "nat \<Rightarrow> int \<Rightarrow> nat option" where
  "list_index n k =
     (if 0 \<le> k \<and> k < int n then Some (nat k)
      else if - int n \<le> k \<and> k < 0 then Some (nat (int n + k))
      else None)"

definition mlq_admit_one ::
  "Process list \<Rightarrow> int \<Rightarrow> nat list \<Rightarrow> nat \<Rightarrow> error + nat list list \<Rightarrow> error + nat list list" where
  "mlq_admit_one ps t done i r =
     (case r of
        Inl e \<Rightarrow> Inl e
      | Inr qs \<Rightarrow>
          if arrival_time (ps ! i) \<le> t \<and> \<not> obj_in ps i done \<and> \<not> (\<exists>q \<in> set qs. obj_in ps i q)
          then (let queue_index = min (priority (ps ! i) div 4) 2
                in case list_index (length qs) queue_index of
                     None \<Rightarrow> Inl IndexError
                   | Some k \<Rightarrow> Inr (qs[k := qs ! k @ [i]]))
          else Inr qs)"

definition mlq_admit ::
  "Process list \<Rightarrow> int \<Rightarrow> nat list \<Rightarrow> nat list list \<Rightarrow> error + nat list list" where
  "mlq_admit ps t done qs = fold (mlq_admit_one ps t done) [0..<length ps] (Inr qs)"

text \<open>\<open>next(i for i, q in enumerate(queues) if q)\<close>, called when some queue is not empty.\<close>

definition first_nonempty :: "nat list list \<Rightarrow> nat" where
  "first_nonempty qs = length (takeWhile (\<lambda>q. q = []) qs)"

definition multilevel_queue_step :: "int \<Rightarrow> mlq_state \<Rightarrow> error + mlq_state" where
  "multilevel_queue_step quantum s =
     (case mlq_admit (processes s) (current_time s) (completed_processes s) (queues s) of
        Inl e \<Rightarrow> Inl e
      | Inr qs \<Rightarrow>
          if \<forall>q \<in> set qs. q = []
          then Inr (s\<lparr>current_time := current_time s + 1, queues := qs\<rparr>)
          else
            let queue_index = first_nonempty qs;
                i = hd (qs ! queue_index);
                qs = qs[queue_index := tl (qs ! queue_index)];
                p = set_start (current_time s) (processes s ! i);
                execution_time =
                  (if queue_index = 0 then remaining_time p
                   else min quantum (remaining_time p));
                p = p\<lparr>remaining_time := remaining_time p - execution_time\<rparr>;
                t = current_time s + execution_time
            in if remaining_time p = 0
               then Inr (s\<lparr>processes := (processes s)[i := p\<lparr>completion_time := Some t\<rparr>],
                           current_time := t,
                           completed_processes := completed_processes s @ [i],
                           queues := qs\<rparr>)
               else Inr (s\<lparr>processes := (processes s)[i := p], current_time := t,
                           queues := qs[queue_index := qs ! queue_index @ [i]]\<rparr>))"

definition start_mlq :: "Scheduler \<Rightarrow> mlq_state" where
  "start_mlq self =
     \<lparr>original_processes = original_processes self, processes = processes self,
      current_time = 0, completed_processes = [], queues = [[], [], []]\<rparr>"

text \<open>
  The loop of Multilevel Queue.  A raised exception leaves the loop: the first component
  of the loop state is the pending exception, and the records stay as they were when it
  was raised.
\<close>

definition mlq_cond :: "error option \<times> mlq_state \<Rightarrow> bool" where
  "mlq_cond x \<longleftrightarrow> fst x = None \<and> loop_cond (snd x)"

definition mlq_body :: "int \<Rightarrow> error option \<times> mlq_state \<Rightarrow> error option \<times> mlq_state" where
  "mlq_body quantum x =
     (case multilevel_queue_step quantum (snd x) of
        Inl e \<Rightarrow> (Some e, snd x)
      | Inr s \<Rightarrow> (None, s))"

definition multilevel_queue_run :: "int \<Rightarrow> Scheduler \<Rightarrow> (error option \<times> mlq_state) option" where
  "multilevel_queue_run quantum self =
     while_option mlq_cond (mlq_body quantum) (None, start_mlq (reset_processes self))"

definition multilevel_queue ::
  "int \<Rightarrow> Scheduler \<Rightarrow> ((error + Metrics) \<times> Scheduler) option" where
  "multilevel_queue quantum self =
     map_option
       (\<lambda>x. case fst x of
              Some e \<Rightarrow> (Inl e, the_scheduler (snd x))
            | None \<Rightarrow> finish (snd x))
       (multilevel_queue_run quantum self)"

section \<open>The policies as one family\<close>

datatype policy = FCFS | SJF_NP | SJF_P | RR int | PRIO_NP | PRIO_P | MLQ int

definition run_policy :: "policy \<Rightarrow> Scheduler \<Rightarrow> ((error + Metrics) \<times> Scheduler) option" where
  "run_policy pol self =
     (case pol of
        FCFS \<Rightarrow> fcfs self
      | SJF_NP \<Rightarrow> sjf_nonpreemptive self
      | SJF_P \<Rightarrow> sjf_preemptive self
      | RR quantum \<Rightarrow> round_robin quantum self
      | PRIO_NP \<Rightarrow> priority_nonpreemptive self
      | PRIO_P \<Rightarrow> priority_preemptive self
      | MLQ quantum \<Rightarrow> multilevel_queue quantum self)"

text \<open>
  The six single-queue loops differ in three places only: how the ready queue is ordered
  before the head is taken, how long the head runs, and where an unfinished head goes.
  \<open>policy_step\<close> is the loop body with these three places as parameters; each loop body
  above is shown to be an instance of it, and the proofs are done once.
\<close>

datatype queue_order = Fifo | By_remaining | By_priority

datatype slice = Full | Tick | Quantum int

definition order_queue :: "queue_order \<Rightarrow> Process list \<Rightarrow> nat list \<Rightarrow> nat list" where
  "order_queue ord ps rq =
     (case ord of
        Fifo \<Rightarrow> rq
      | By_remaining \<Rightarrow> sort_key (\<lambda>j. remaining_time (ps ! j)) rq
      | By_priority \<Rightarrow> sort_key (\<lambda>j. priority (ps ! j)) rq)"

definition slice_len :: "slice \<Rightarrow> Process \<Rightarrow> int" where
  "slice_len sl p =
     (case sl of Full \<Rightarrow> remaining_time p | Tick \<Rightarrow> 1 | Quantum q \<Rightarrow> min q (remaining_time p))"

definition requeue :: "slice \<Rightarrow> nat list \<Rightarrow> nat list" where
  "requeue sl rq = (case sl of Tick \<Rightarrow> rq | _ \<Rightarrow> tl rq @ [hd rq])"

definition policy_step :: "queue_order \<Rightarrow> slice \<Rightarrow> run_state \<Rightarrow> run_state" where
  "policy_step ord sl s =
     (let rq = admit (processes s) (current_time s) (completed_processes s) (ready_queue s)
      in if rq = [] then s\<lparr>current_time := current_time s + 1, ready_queue := rq\<rparr>
      else
        let rq = order_queue ord (processes s) rq;
            i = hd rq;
            p = set_start (current_time s) (processes s ! i);
            e = slice_len sl p;
            p = p\<lparr>remaining_time := remaining_time p - e\<rparr>;
            t = current_time s + e
        in if remaining_time p = 0
           then s\<lparr>processes := (processes s)[i := p\<lparr>completion_time := Some t\<rparr>],
                  current_time := t,
                  completed_processes := completed_processes s @ [i],
                  ready_queue := tl rq\<rparr>
           else s\<lparr>processes := (processes s)[i := p], current_time := t,
                  ready_queue := requeue sl rq\<rparr>)"

definition policy_run :: "queue_order \<Rightarrow> slice \<Rightarrow> Scheduler \<Rightarrow> run_state option" where
  "policy_run ord sl self =
     while_option loop_cond (policy_step ord sl) (start_run (reset_processes self))"

section \<open>Invariants of a run\<close>

text \<open>The part of a record that a run never writes.\<close>

definition descr :: "Process \<Rightarrow> int \<times> int \<times> int \<times> int" where
  "descr p = (pid p, arrival_time p, burst_time p, priority p)"

text \<open>
  The bookkeeping is consistent: queued and completed positions are positions of
  \<open>processes\<close>, nothing is listed twice, and the completed positions are exactly the
  records whose \<open>completion_time\<close> is set.
\<close>

definition wf_run :: "Process list \<Rightarrow> nat list \<Rightarrow> nat list \<Rightarrow> bool" where
  "wf_run ps done queued \<longleftrightarrow>
     set queued \<subseteq> {..<length ps} \<and> set done \<subseteq> {..<length ps} \<and>
     distinct queued \<and> distinct done \<and> set queued \<inter> set done = {} \<and>
     (\<forall>i<length ps. completion_time (ps ! i) \<noteq> None \<longleftrightarrow> i \<in> set done)"

text \<open>A slice that makes progress: every slice but a quantum below 1.\<close>

definition progress :: "slice \<Rightarrow> bool" where
  "progress sl = (case sl of Quantum q \<Rightarrow> 1 \<le> q | _ \<Rightarrow> True)"

definition run_inv :: "slice \<Rightarrow> Process list \<Rightarrow> run_state \<Rightarrow> bool" where
  "run_inv sl ws s \<longleftrightarrow>
     original_processes s = ws \<and>
     map descr (processes s) = map descr ws \<and>
     wf_run (processes s) (completed_processes s) (ready_queue s) \<and>
     (\<forall>i<length ws. i \<notin> set (ready_queue s) \<and> i \<notin> set (completed_processes s)
          \<longrightarrow> processes s ! i = clone (ws ! i)) \<and>
     (\<forall>i<length ws. completion_time (processes s ! i) = None
          \<longrightarrow> 1 \<le> remaining_time (processes s ! i)) \<and>
     (\<forall>i<length ws. \<forall>c. completion_time (processes s ! i) = Some c
          \<longrightarrow> remaining_time (processes s ! i) = 0 \<and>
              arrival_time (ws ! i) + burst_time (ws ! i) \<le> c \<and> 1 \<le> c) \<and>
     (progress sl \<longrightarrow> 0 \<le> current_time s \<and>
        (\<forall>i \<in> set (ready_queue s).
           arrival_time (ws ! i) + burst_time (ws ! i) - remaining_time (processes s ! i)
             \<le> current_time s)) \<and>
     (\<not> progress sl \<longrightarrow> completed_processes s = [])"

text \<open>The two quantities that bound the length of a run.\<close>

definition work :: "Process list \<Rightarrow> int" where
  "work ps = sum_list (map remaining_time ps)"

definition idle_left :: "Process list \<Rightarrow> int \<Rightarrow> nat" where
  "idle_left ws t = nat (Max (insert 0 (arrival_time ` set ws)) - t)"

definition zero_metrics :: Metrics where
  "zero_metrics = \<lparr>avg_turnaround_time = 0, avg_waiting_time = 0, throughput = 0,
     cpu_utilization = Finite 0\<rparr>"

definition tier_slot :: "Process \<Rightarrow> nat option" where
  "tier_slot p = list_index 3 (min (priority p div 4) 2)"

text \<open>What a successful admission scan of Multilevel Queue adds to the queues.\<close>

definition admitted_to ::
  "Process list \<Rightarrow> int \<Rightarrow> nat list \<Rightarrow> nat list list \<Rightarrow> nat list list \<Rightarrow> bool" where
  "admitted_to ps t dn qs qs' \<longleftrightarrow>
     length qs' = length qs \<and>
     (\<forall>k<length qs. \<exists>zs. qs' ! k = qs ! k @ zs \<and> distinct zs \<and> set zs \<subseteq> {..<length ps} \<and>
        (\<forall>i \<in> set zs. arrival_time (ps ! i) \<le> t \<and> i \<notin> set dn \<and>
           (\<forall>q \<in> set qs. i \<notin> set q) \<and>
           list_index (length qs) (min (priority (ps ! i) div 4) 2) = Some k))"

text \<open>The invariant of the Multilevel Queue loop.\<close>

definition mlq_wf :: "Process list \<Rightarrow> nat list \<Rightarrow> nat list list \<Rightarrow> bool" where
  "mlq_wf ps done qs \<longleftrightarrow>
     length qs = 3 \<and>
     (\<forall>k<3. set (qs ! k) \<subseteq> {..<length ps} \<and> distinct (qs ! k) \<and> set (qs ! k) \<inter> set done = {}) \<and>
     set done \<subseteq> {..<length ps} \<and> distinct done \<and>
     (\<forall>i<length ps. completion_time (ps ! i) \<noteq> None \<longleftrightarrow> i \<in> set done)"

definition mlq_inv :: "int \<Rightarrow> Process list \<Rightarrow> mlq_state \<Rightarrow> bool" where
  "mlq_inv quantum ws s \<longleftrightarrow>
     original_processes s = ws \<and>
     map descr (processes s) = map descr ws \<and>
     mlq_wf (processes s) (completed_processes s) (queues s) \<and>
     (\<forall>k<3. \<forall>i \<in> set (queues s ! k). tier_slot (ws ! i) = Some k) \<and>
     (\<forall>i<length ws. (\<forall>k<3. i \<notin> set (queues s ! k)) \<and> i \<notin> set (completed_processes s)
          \<longrightarrow> processes s ! i = clone (ws ! i)) \<and>
     (\<forall>i<length ws. completion_time (processes s ! i) = None
          \<longrightarrow> 1 \<le> remaining_time (processes s ! i)) \<and>
     (\<forall>i<length ws. \<forall>c. completion_time (processes s ! i) = Some c
          \<longrightarrow> remaining_time (processes s ! i) = 0 \<and>
              arrival_time (ws ! i) + burst_time (ws ! i) \<le> c) \<and>
     (\<forall>i \<in> set (queues s ! 0).
          remaining_time (processes s ! i) = burst_time (ws ! i) \<and>
          arrival_time (ws ! i) \<le> current_time s) \<and>
     (1 \<le> quantum \<longrightarrow>
        (\<forall>k<3. \<forall>i \<in> set (queues s ! k).
           arrival_time (ws ! i) + burst_time (ws ! i) - remaining_time (processes s ! i)
             \<le> current_time s)) \<and>
     ((0 \<le> current_time s \<and>
       (\<forall>i<length ws. \<forall>c. completion_time (processes s ! i) = Some c \<longrightarrow> 1 \<le> c)) \<or>
      (quantum < 1 \<and> (queues s ! 1 \<noteq> [] \<or> queues s ! 2 \<noteq> [])))"

definition tiers_ok :: "Process list \<Rightarrow> bool" where
  "tiers_ok ws \<longleftrightarrow> (\<forall>p \<in> set ws. tier_slot p \<noteq> None)"

text \<open>The parameters of the six single-queue policies.\<close>

definition single_queue :: "policy \<Rightarrow> (queue_order \<times> slice) option" where
  "single_queue pol =
     (case pol of
        FCFS \<Rightarrow> Some (Fifo, Full)
      | SJF_NP \<Rightarrow> Some (By_remaining, Full)
      | SJF_P \<Rightarrow> Some (By_remaining, Tick)
      | RR quantum \<Rightarrow> Some (Fifo, Quantum quantum)
      | PRIO_NP \<Rightarrow> Some (By_priority, Full)
      | PRIO_P \<Rightarrow> Some (By_priority, Tick)
      | MLQ quantum \<Rightarrow> None)"

text \<open>
  A valid workload, as the specification has it: unique pids, no negative arrival time,
  positive burst times.
\<close>

definition valid_descriptors :: "Process list \<Rightarrow> bool" where
  "valid_descriptors ws \<longleftrightarrow>
     distinct (map pid ws) \<and> (\<forall>p \<in> set ws. 0 \<le> arrival_time p \<and> 0 < burst_time p)"

text \<open>
  The parameters under which every loop makes progress: a quantum of at least 1, and for
  Multilevel Queue priorities whose tier index is a valid index of the three queues.
\<close>

definition policy_ok :: "policy \<Rightarrow> Process list \<Rightarrow> bool" where
  "policy_ok pol ws =
     (case pol of
        RR quantum \<Rightarrow> 1 \<le> quantum
      | MLQ quantum \<Rightarrow> 1 \<le> quantum \<and> (\<forall>p \<in> set ws. - 12 \<le> priority p)
      | _ \<Rightarrow> True)"

text \<open>The states that the loop of Multilevel Queue goes through.\<close>

inductive mlq_reach :: "int \<Rightarrow> Scheduler \<Rightarrow> mlq_state \<Rightarrow> bool" for quantum self where
  start: "mlq_reach quantum self (start_mlq (reset_processes self))"
| step: "mlq_reach quantum self s \<Longrightarrow> loop_cond s \<Longrightarrow>
         multilevel_queue_step quantum s = Inr s' \<Longrightarrow> mlq_reach quantum self s'"

text \<open>
  Every queued position is a position of \<open>processes\<close> and sits in the queue that its
  priority selects; this needs no assumption on the workload.
\<close>

definition tiers_inv :: "Process list \<Rightarrow> mlq_state \<Rightarrow> bool" where
  "tiers_inv ws s \<longleftrightarrow>
     length (queues s) = 3 \<and> map descr (processes s) = map descr ws \<and>
     (\<forall>k<3. \<forall>i \<in> set (queues s ! k).
        i < length (processes s) \<and> tier_slot (processes s ! i) = Some k)"

text \<open>The bookkeeping invariant alone; it holds on every workload.\<close>

definition wf_inv :: "Process list \<Rightarrow> run_state \<Rightarrow> bool" where
  "wf_inv ws s \<longleftrightarrow>
     original_processes s = ws \<and> map descr (processes s) = map descr ws \<and>
     wf_run (processes s) (completed_processes s) (ready_queue s)"

text \<open>
  The bookkeeping of Multilevel Queue with the tier of every queued position; it holds on
  every workload.
\<close>

definition mlq_book :: "Process list \<Rightarrow> mlq_state \<Rightarrow> bool" where
  "mlq_book ws s \<longleftrightarrow>
     original_processes s = ws \<and> map descr (processes s) = map descr ws \<and>
     mlq_wf (processes s) (completed_processes s) (queues s) \<and>
     (\<forall>k<3. \<forall>i \<in> set (queues s ! k). tier_slot (processes s ! i) = Some k)"

definition run_to_completion :: "policy \<Rightarrow> bool" where
  "run_to_completion pol \<longleftrightarrow> pol = FCFS \<or> pol = SJF_NP \<or> pol = PRIO_NP"

text \<open>
  The key by which a policy sorts its ready queue (FCFS and Round Robin do not sort: a
  constant key).
\<close>

definition sort_key_of :: "queue_order \<Rightarrow> Process \<Rightarrow> int" where
  "sort_key_of ord p =
     (case ord of Fifo \<Rightarrow> 0 | By_remaining \<Rightarrow> remaining_time p | By_priority \<Rightarrow> priority p)"


definition newly_admitted :: "run_state \<Rightarrow> nat list" where
  "newly_admitted s =
     drop (length (ready_queue s))
       (admit (processes s) (current_time s) (completed_processes s) (ready_queue s))"

inductive policy_trace :: "queue_order \<Rightarrow> slice \<Rightarrow> Scheduler \<Rightarrow> run_state \<Rightarrow> nat list \<Rightarrow> bool"
  for ord sl self where
  start: "policy_trace ord sl self (start_run (reset_processes self)) []"
| step: "policy_trace ord sl self s alog \<Longrightarrow> loop_cond s \<Longrightarrow>
         policy_trace ord sl self (policy_step ord sl s) (alog @ newly_admitted s)"


section \<open>Basic facts\<close>

subsection \<open>Rounding to a double\<close>


lemma binade_bounds:
  assumes "q \<noteq> 0"
  shows "2 powi (binade q) \<le> \<bar>q\<bar>" and "\<bar>q\<bar> < 2 powi (binade q + 1)"
proof -
  obtain a b where ab: "quotient_of \<bar>q\<bar> = (a, b)" by force
  have b: "0 < b" using quotient_of_denom_pos[OF ab] .
  have q: "\<bar>q\<bar> = of_int a / of_int b" using quotient_of_div[OF ab] .
  have qpos: "0 < \<bar>q\<bar>" using assms by simp
  have a: "0 < a"
  proof (rule ccontr)
    assume "\<not> 0 < a"
    then have "of_int a / (of_int b :: rat) \<le> 0" using b by (simp add: divide_nonpos_pos)
    then show False using qpos q by simp
  qed
  define la where "la = bitlen a"
  define lb where "lb = bitlen b"
  have la: "2 ^ nat (la - 1) \<le> a" "a < 2 ^ nat la" using bitlen_bounds[OF a] by (simp_all add: la_def)
  have lb: "2 ^ nat (lb - 1) \<le> b" "b < 2 ^ nat lb" using bitlen_bounds[OF b] by (simp_all add: lb_def)
  have la1: "1 \<le> la" using a bitlen_eq_zero_iff[of a] bitlen_nonneg[of a] by (simp add: la_def)
  have lb1: "1 \<le> lb" using b bitlen_eq_zero_iff[of b] bitlen_nonneg[of b] by (simp add: lb_def)
  have ra: "(2::rat) powi (la - 1) \<le> of_int a" "of_int a < (2::rat) powi la"
  proof -
    have "(2::rat) powi (la - 1) = of_int (2 ^ nat (la - 1))" using la1 by (simp add: power_int_def)
    then show "(2::rat) powi (la - 1) \<le> of_int a" using la(1) by (simp only: of_int_le_iff)
    have "(2::rat) powi la = of_int (2 ^ nat la)" using la1 by (simp add: power_int_def)
    then show "of_int a < (2::rat) powi la" using la(2) by (simp only: of_int_less_iff)
  qed
  have rb: "(2::rat) powi (lb - 1) \<le> of_int b" "of_int b < (2::rat) powi lb"
  proof -
    have "(2::rat) powi (lb - 1) = of_int (2 ^ nat (lb - 1))" using lb1 by (simp add: power_int_def)
    then show "(2::rat) powi (lb - 1) \<le> of_int b" using lb(1) by (simp only: of_int_le_iff)
    have "(2::rat) powi lb = of_int (2 ^ nat lb)" using lb1 by (simp add: power_int_def)
    then show "of_int b < (2::rat) powi lb" using lb(2) by (simp only: of_int_less_iff)
  qed
  have bpos: "(0::rat) < of_int b" using b by simp
  have p: "(0::rat) < 2 powi k" for k by (simp add: zero_less_power_int)
  have up: "\<bar>q\<bar> < 2 powi (la - lb + 1)"
  proof -
    have "of_int a / of_int b < (2::rat) powi la / of_int b"
      using ra(2) bpos by (simp add: divide_strict_right_mono)
    also have "\<dots> \<le> 2 powi la / 2 powi (lb - 1)"
      using rb(1) p[of "lb - 1"] p[of la] by (simp add: frac_le)
    also have "\<dots> = 2 powi (la - lb + 1)"
      using power_int_diff[of "2::rat" la "lb - 1"] by (simp add: algebra_simps)
    finally show ?thesis using q by simp
  qed
  have low: "2 powi (la - lb - 1) \<le> \<bar>q\<bar>"
  proof -
    have "(2::rat) powi (la - lb - 1) = 2 powi (la - 1) / 2 powi lb"
      using power_int_diff[of "2::rat" "la - 1" lb] by (simp add: algebra_simps)
    also have "\<dots> \<le> of_int a / 2 powi lb"
      using ra(1) p[of lb] by (simp add: divide_right_mono)
    also have "\<dots> \<le> of_int a / of_int b"
      using rb(2) bpos a by (simp add: frac_le)
    finally show ?thesis using q by simp
  qed
  have bd: "binade q = (if 2 powi (la - lb) \<le> \<bar>q\<bar> then la - lb else la - lb - 1)"
    by (simp add: binade_def ab la_def lb_def Let_def)
  show "2 powi (binade q) \<le> \<bar>q\<bar>" using low by (simp add: bd)
  show "\<bar>q\<bar> < 2 powi (binade q + 1)" using up by (auto simp add: bd)
qed

lemma binade_eq:
  assumes "2 powi e \<le> \<bar>q\<bar>" and "\<bar>q\<bar> < 2 powi (e + 1)"
  shows "binade q = e"
proof -
  have "q \<noteq> 0"
  proof
    assume "q = 0"
    then have "(2::rat) powi e \<le> 0" using assms(1) by simp
    moreover have "(0::rat) < 2 powi e" by (rule zero_less_power_int) simp
    ultimately show False by (blast dest: leD)
  qed
  note b = binade_bounds[OF this]
  have "2 powi e < (2::rat) powi (binade q + 1)" using assms(1) b(2) by simp
  then have 1: "e < binade q + 1"
    using power_int_increasing[of "binade q + 1" e "2::rat"] by (cases "e < binade q + 1") auto
  have "2 powi (binade q) < (2::rat) powi (e + 1)" using assms(2) b(1) by simp
  then have 2: "binade q < e + 1"
    using power_int_increasing[of "e + 1" "binade q" "2::rat"] by (cases "binade q < e + 1") auto
  show ?thesis using 1 2 by simp
qed

lemma nearest_double_eval:
  assumes "2 powi e \<le> \<bar>q\<bar>" and "\<bar>q\<bar> < 2 powi (e + 1)"
  shows "nearest_double q =
     of_int (round_half_even (q / 2 powi max (e - 52) (- 1074))) * 2 powi max (e - 52) (- 1074)"
proof -
  have "q \<noteq> 0"
  proof
    assume "q = 0"
    then have "(2::rat) powi e \<le> 0" using assms(1) by simp
    moreover have "(0::rat) < 2 powi e" by (rule zero_less_power_int) simp
    ultimately show False by (blast dest: leD)
  qed
  then show ?thesis by (simp add: nearest_double_def binade_eq[OF assms] Let_def)
qed

lemma floor_rat_numeral [simp]:
  "\<lfloor>(numeral a :: rat) / numeral b\<rfloor> = numeral a div numeral b"
  "\<lfloor>- (numeral a :: rat) / numeral b\<rfloor> = - numeral a div numeral b"
  using floor_divide_of_int_eq[of "numeral a" "numeral b", where ?'a = rat]
    floor_divide_of_int_eq[of "- numeral a" "numeral b", where ?'a = rat]
  by simp_all

lemma true_div_not_zero_division: "b \<noteq> 0 \<Longrightarrow> true_div a b \<noteq> Inl ZeroDivisionError"
  by (simp add: true_div_def)

lemma true_div_errors: "true_div a b = Inl e \<Longrightarrow> e = ZeroDivisionError \<or> e = OverflowError"
  by (auto simp add: true_div_def split: if_splits)

lemma mean_errors: "xs \<noteq> [] \<Longrightarrow> mean xs = Inl e \<Longrightarrow> e = OverflowError"
  by (auto simp add: mean_def true_div_def Let_def split: if_splits)

lemma nearest_double_1: "nearest_double 1 = 1"
  using nearest_double_eval[of 0 1] by (simp add: round_half_even_def)

lemma true_div_self [simp]: "a \<noteq> 0 \<Longrightarrow> true_div a a = Inr 1"
  by (simp add: true_div_def overflows_def nearest_double_1)

lemma true_div_2_8 [simp]: "true_div 2 8 = Inr (1 / 4)"
  using nearest_double_eval[of "- 2" "1 / 4"]
  by (simp add: true_div_def overflows_def round_half_even_def power_int_minus)

lemma float_mul_1_100 [simp]: "float_mul 1 100 = Finite 100"
  using nearest_double_eval[of 6 100]
  by (simp add: float_mul_def overflows_def round_half_even_def)

text \<open>A third is not a double: the quotient is rounded to 53 bits.\<close>

lemma true_div_1_3: "true_div 1 3 = Inr (6004799503160661 / 2 ^ 54)"
  using nearest_double_eval[of "- 2" "1 / 3"]
  by (simp add: true_div_def overflows_def round_half_even_def power_int_minus Let_def)

lemma mean_overflow_example: "mean [2 ^ 1024, 2 ^ 1024 + 1] = Inl OverflowError"
  by (simp add: mean_def true_div_def overflows_def)


subsection \<open>The admission scan\<close>

lemma obj_in_self: "i \<in> set xs \<Longrightarrow> obj_in ps i xs"
  by (auto simp: obj_in_def)

lemma obj_in_append: "obj_in ps i (xs @ ys) \<longleftrightarrow> obj_in ps i xs \<or> obj_in ps i ys"
  by (auto simp: obj_in_def)

lemma obj_in_Nil: "\<not> obj_in ps i []"
  by (simp add: obj_in_def)

lemma fold_admit_one_shape:
  "\<exists>ys. fold (admit_one ps t done) xs rq = rq @ ys \<and> set ys \<subseteq> set xs \<and> distinct ys
        \<and> set ys \<inter> set rq = {}
        \<and> (\<forall>i \<in> set ys. arrival_time (ps ! i) \<le> t \<and> \<not> obj_in ps i done \<and> \<not> obj_in ps i rq)"
proof (induction xs arbitrary: rq)
  case Nil
  then show ?case by simp
next
  case (Cons x xs)
  show ?case
  proof (cases "arrival_time (ps ! x) \<le> t \<and> \<not> obj_in ps x done \<and> \<not> obj_in ps x rq")
    case True
    then have a: "admit_one ps t done x rq = rq @ [x]" by (simp add: admit_one_def)
    from Cons.IH[of "rq @ [x]"] obtain ys where
      ys: "fold (admit_one ps t done) xs (rq @ [x]) = (rq @ [x]) @ ys" "set ys \<subseteq> set xs"
         "distinct ys" "set ys \<inter> set (rq @ [x]) = {}"
         "\<forall>i \<in> set ys. arrival_time (ps ! i) \<le> t \<and> \<not> obj_in ps i done \<and> \<not> obj_in ps i (rq @ [x])"
      by blast
    have xrq: "x \<notin> set rq" using True obj_in_self by blast
    show ?thesis
      apply (rule exI[of _ "x # ys"])
      using ys True xrq by (auto simp: a obj_in_append)
  next
    case False
    then have a: "admit_one ps t done x rq = rq" by (auto simp: admit_one_def)
    from Cons.IH[of rq] show ?thesis by (auto simp: a)
  qed
qed

lemma fold_admit_one_covers:
  "i \<in> set xs \<Longrightarrow> arrival_time (ps ! i) \<le> t \<Longrightarrow> \<not> obj_in ps i done
     \<Longrightarrow> obj_in ps i (fold (admit_one ps t done) xs rq)"
proof (induction xs arbitrary: rq)
  case Nil
  then show ?case by simp
next
  case (Cons x xs)
  have mono: "obj_in ps i q \<Longrightarrow> obj_in ps i (fold (admit_one ps t done) xs q)" for q
    using fold_admit_one_shape[of ps t "done" xs q] by (auto simp: obj_in_append)
  show ?case
  proof (cases "i = x")
    case True
    have "obj_in ps i (admit_one ps t done x rq)"
      using Cons.prems True by (auto simp: admit_one_def obj_in_append obj_in_def)
    then show ?thesis by (simp add: mono)
  next
    case False
    then show ?thesis using Cons by simp
  qed
qed

lemma admit_shape:
  "\<exists>ys. admit ps t done rq = rq @ ys \<and> set ys \<subseteq> {..<length ps} \<and> distinct ys
        \<and> set ys \<inter> set rq = {}
        \<and> (\<forall>i \<in> set ys. arrival_time (ps ! i) \<le> t \<and> \<not> obj_in ps i done \<and> \<not> obj_in ps i rq)"
  using fold_admit_one_shape[of ps t "done" "[0..<length ps]" rq]
  unfolding admit_def by (auto simp: subset_iff)

lemma admit_covers:
  "i < length ps \<Longrightarrow> arrival_time (ps ! i) \<le> t \<Longrightarrow> \<not> obj_in ps i done
     \<Longrightarrow> obj_in ps i (admit ps t done rq)"
  unfolding admit_def by (rule fold_admit_one_covers) auto

subsection \<open>The six loop bodies are instances of the common one\<close>

lemma remaining_set_start [simp]: "remaining_time (set_start t p) = remaining_time p"
  by (simp add: set_start_def)

lemma fcfs_step_eq: "fcfs_step = policy_step Fifo Full"
  by (rule ext) (simp add: fcfs_step_def policy_step_def order_queue_def slice_len_def Let_def)

lemma sjf_nonpreemptive_step_eq: "sjf_nonpreemptive_step = policy_step By_remaining Full"
  by (rule ext)
    (simp add: sjf_nonpreemptive_step_def policy_step_def order_queue_def slice_len_def Let_def)

lemma priority_nonpreemptive_step_eq: "priority_nonpreemptive_step = policy_step By_priority Full"
  by (rule ext)
    (simp add: priority_nonpreemptive_step_def policy_step_def order_queue_def slice_len_def Let_def)

lemma sjf_preemptive_step_eq: "sjf_preemptive_step = policy_step By_remaining Tick"
  by (rule ext)
    (simp add: sjf_preemptive_step_def policy_step_def order_queue_def slice_len_def
       requeue_def Let_def)

lemma priority_preemptive_step_eq: "priority_preemptive_step = policy_step By_priority Tick"
  by (rule ext)
    (simp add: priority_preemptive_step_def policy_step_def order_queue_def slice_len_def
       requeue_def Let_def)

lemma round_robin_step_eq: "round_robin_step quantum = policy_step Fifo (Quantum quantum)"
  by (rule ext)
    (simp add: round_robin_step_def policy_step_def order_queue_def slice_len_def
       requeue_def Let_def)

subsection \<open>One step of the common loop body\<close>

lemma mset_order_queue: "mset (order_queue ord ps xs) = mset xs"
  by (cases ord) (simp_all add: order_queue_def)

lemma set_order_queue: "set (order_queue ord ps xs) = set xs"
  by (metis mset_order_queue set_mset_mset)

lemma distinct_order_queue: "distinct (order_queue ord ps xs) = distinct xs"
  by (metis mset_order_queue distinct_count_atmost_1 set_mset_mset)

lemma order_queue_Nil: "order_queue ord ps xs = [] \<longleftrightarrow> xs = []"
  by (metis mset_order_queue mset_zero_iff)

lemma set_requeue: "xs \<noteq> [] \<Longrightarrow> set (requeue sl xs) = set xs"
  by (cases xs; cases sl) (auto simp: requeue_def)

lemma distinct_requeue: "xs \<noteq> [] \<Longrightarrow> distinct (requeue sl xs) = distinct xs"
  by (cases xs; cases sl) (auto simp: requeue_def)

lemma policy_step_cases [case_names idle complete requeue]:
  fixes s :: run_state and ord :: queue_order and sl :: slice
  defines "ps \<equiv> processes s" and "t \<equiv> current_time s"
    and "dn \<equiv> completed_processes s" and "rq \<equiv> ready_queue s"
    and "s' \<equiv> policy_step ord sl s"
  obtains
    (idle) "admit ps t dn rq = []" "rq = []"
      "s' = s\<lparr>current_time := t + 1, ready_queue := []\<rparr>"
  | (complete) i rest p where
      "order_queue ord ps (admit ps t dn rq) = i # rest"
      "p = set_start t (ps ! i)" "remaining_time (ps ! i) = slice_len sl p"
      "s' = s\<lparr>processes := ps[i := p\<lparr>remaining_time := 0, completion_time := Some (t + slice_len sl p)\<rparr>],
              current_time := t + slice_len sl p,
              completed_processes := dn @ [i],
              ready_queue := rest\<rparr>"
  | (requeue) i rest p where
      "order_queue ord ps (admit ps t dn rq) = i # rest"
      "p = set_start t (ps ! i)" "remaining_time (ps ! i) \<noteq> slice_len sl p"
      "s' = s\<lparr>processes := ps[i := p\<lparr>remaining_time := remaining_time p - slice_len sl p\<rparr>],
              current_time := t + slice_len sl p,
              ready_queue := requeue sl (i # rest)\<rparr>"
proof (cases "admit ps t dn rq = []")
  case True
  moreover have "rq = []"
    using admit_shape[of ps t dn rq] True by auto
  moreover have "s' = s\<lparr>current_time := t + 1, ready_queue := []\<rparr>"
    using True by (simp add: s'_def policy_step_def ps_def t_def dn_def rq_def)
  ultimately show ?thesis by (rule idle)
next
  case False
  then have "order_queue ord ps (admit ps t dn rq) \<noteq> []"
    by (simp add: order_queue_Nil)
  then obtain i rest where ir: "order_queue ord ps (admit ps t dn rq) = i # rest"
    by (cases "order_queue ord ps (admit ps t dn rq)") auto
  define p where "p = set_start t (ps ! i)"
  show ?thesis
  proof (cases "remaining_time (ps ! i) = slice_len sl p")
    case True
    have "s' = s\<lparr>processes := ps[i := p\<lparr>remaining_time := 0, completion_time := Some (t + slice_len sl p)\<rparr>],
              current_time := t + slice_len sl p,
              completed_processes := dn @ [i],
              ready_queue := rest\<rparr>"
      using False ir True unfolding s'_def policy_step_def ps_def t_def dn_def rq_def p_def
      by (simp add: Let_def)
    with ir p_def True show ?thesis by (rule complete)
  next
    case nz: False
    have "s' = s\<lparr>processes := ps[i := p\<lparr>remaining_time := remaining_time p - slice_len sl p\<rparr>],
              current_time := t + slice_len sl p,
              ready_queue := requeue sl (i # rest)\<rparr>"
      using False ir nz unfolding s'_def policy_step_def ps_def t_def dn_def rq_def p_def
      by (simp add: Let_def)
    with ir p_def nz show ?thesis by (rule requeue)
  qed
qed

subsection \<open>Consistency of the bookkeeping\<close>

lemma descr_set_start [simp]: "descr (set_start t p) = descr p"
  by (simp add: descr_def set_start_def)

lemma completion_set_start [simp]: "completion_time (set_start t p) = completion_time p"
  by (simp add: set_start_def)

lemma map_descr_update:
  "descr v = descr (ps ! i) \<Longrightarrow> map descr (ps[i := v]) = map descr ps"
proof (rule nth_equalityI)
  fix k assume "k < length (map descr (ps[i := v]))"
  then have k: "k < length ps" by simp
  assume d: "descr v = descr (ps ! i)"
  show "map descr (ps[i := v]) ! k = map descr ps ! k"
    using k d by (cases "k = i") simp_all
qed simp

lemma descr_nth:
  "map descr ps = map descr ws \<Longrightarrow> i < length ws \<Longrightarrow> descr (ps ! i) = descr (ws ! i)"
  by (metis length_map nth_map)

lemma descr_fields:
  "descr p = descr q \<Longrightarrow>
     pid p = pid q \<and> arrival_time p = arrival_time q \<and> burst_time p = burst_time q
       \<and> priority p = priority q"
  by (simp add: descr_def)

lemma obj_in_done:
  assumes "wf_run ps dn rq" "i < length ps"
  shows "obj_in ps i dn \<longleftrightarrow> i \<in> set dn"
proof
  assume "obj_in ps i dn"
  then obtain j where j: "j \<in> set dn" "ps ! j = ps ! i" by (auto simp: obj_in_def)
  have iff: "\<forall>k<length ps. completion_time (ps ! k) \<noteq> None \<longleftrightarrow> k \<in> set dn"
    using assms(1) by (simp add: wf_run_def)
  have "j < length ps" using assms(1) j(1) by (auto simp: wf_run_def)
  with iff j(1) have "completion_time (ps ! j) \<noteq> None" by blast
  then have "completion_time (ps ! i) \<noteq> None" using j by simp
  with iff assms(2) show "i \<in> set dn" by blast
qed (rule obj_in_self)

text \<open>What the admission scan adds to a consistent state.\<close>

lemma admit_wf:
  assumes "wf_run ps dn rq"
  obtains ys where "admit ps t dn rq = rq @ ys" "set ys \<subseteq> {..<length ps}" "distinct (rq @ ys)"
    "set ys \<inter> set dn = {}" "\<forall>i \<in> set ys. arrival_time (ps ! i) \<le> t" "set ys \<inter> set rq = {}"
proof -
  from admit_shape[of ps t dn rq] obtain ys where
    ys: "admit ps t dn rq = rq @ ys" "set ys \<subseteq> {..<length ps}" "distinct ys"
      "set ys \<inter> set rq = {}"
      "\<forall>i \<in> set ys. arrival_time (ps ! i) \<le> t \<and> \<not> obj_in ps i dn \<and> \<not> obj_in ps i rq"
    by blast
  have "set ys \<inter> set dn = {}" using ys(5) obj_in_self by blast
  moreover have "distinct (rq @ ys)" using ys assms by (auto simp: wf_run_def)
  ultimately show ?thesis using ys that by blast
qed

subsection \<open>The invariant of the six single-queue loops\<close>

lemma slice_len_cases:
  "slice_len sl p = remaining_time p \<Longrightarrow> 1 \<le> remaining_time p \<Longrightarrow> progress sl"
  by (cases sl) (auto simp: slice_len_def progress_def)

lemma slice_len_requeue:
  assumes "slice_len sl p \<noteq> remaining_time p" "1 \<le> remaining_time p"
  shows "1 \<le> remaining_time p - slice_len sl p"
    and "progress sl \<Longrightarrow> 1 \<le> slice_len sl p"
  using assms by (cases sl; auto simp: slice_len_def progress_def)+

lemma run_inv_start:
  assumes "\<forall>p \<in> set (original_processes self). 1 \<le> burst_time p"
  shows "run_inv sl (original_processes self) (start_run (reset_processes self))"
  using assms
  by (auto simp: run_inv_def start_run_def reset_processes_def wf_run_def descr_def clone_def)

lemma run_inv_step:
  assumes b: "\<forall>p \<in> set ws. 1 \<le> burst_time p" and inv: "run_inv sl ws s"
  shows "run_inv sl ws (policy_step ord sl s)"
proof -
  define ps where "ps = processes s"
  define t where "t = current_time s"
  define dn where "dn = completed_processes s"
  define rq where "rq = ready_queue s"
  note defs = ps_def t_def dn_def rq_def
  have I1: "original_processes s = ws"
    and I2: "map descr ps = map descr ws"
    and I3: "wf_run ps dn rq"
    and I4: "\<forall>i<length ws. i \<notin> set rq \<and> i \<notin> set dn \<longrightarrow> ps ! i = clone (ws ! i)"
    and I5: "\<forall>i<length ws. completion_time (ps ! i) = None \<longrightarrow> 1 \<le> remaining_time (ps ! i)"
    and I6: "\<forall>i<length ws. \<forall>c. completion_time (ps ! i) = Some c
          \<longrightarrow> remaining_time (ps ! i) = 0 \<and>
              arrival_time (ws ! i) + burst_time (ws ! i) \<le> c \<and> 1 \<le> c"
    and I7: "progress sl \<longrightarrow> 0 \<le> t \<and>
        (\<forall>i \<in> set rq. arrival_time (ws ! i) + burst_time (ws ! i) - remaining_time (ps ! i) \<le> t)"
    and I8: "\<not> progress sl \<longrightarrow> dn = []"
    using inv unfolding run_inv_def defs by blast+
  have len: "length ps = length ws" using I2 by (metis length_map)
  from admit_wf[OF I3, of t] obtain ys where
    ys: "admit ps t dn rq = rq @ ys" "set ys \<subseteq> {..<length ps}" "distinct (rq @ ys)"
      "set ys \<inter> set dn = {}" "\<forall>i \<in> set ys. arrival_time (ps ! i) \<le> t" "set ys \<inter> set rq = {}"
    by blast
  have W: "set rq \<subseteq> {..<length ps}" "set dn \<subseteq> {..<length ps}" "distinct rq" "distinct dn"
    "set rq \<inter> set dn = {}"
    "\<forall>i<length ps. completion_time (ps ! i) \<noteq> None \<longleftrightarrow> i \<in> set dn"
    using I3 unfolding wf_run_def by blast+
  have fresh: "ps ! i = clone (ws ! i)" if "i \<in> set ys" for i
    using that ys(2,4,6) I4 len by (metis disjoint_iff lessThan_iff subsetD)
  have arr: "arrival_time (ws ! i) + burst_time (ws ! i) - remaining_time (ps ! i) \<le> t"
    if "i \<in> set rq \<union> set ys" "progress sl" for i
  proof (cases "i \<in> set rq")
    case True
    then show ?thesis using I7 that(2) by blast
  next
    case False
    then have i: "i \<in> set ys" using that by blast
    then have "ps ! i = clone (ws ! i)" by (rule fresh)
    moreover have "arrival_time (ps ! i) \<le> t" using ys(5) i by blast
    ultimately show ?thesis by (simp add: clone_def)
  qed
  show ?thesis
  proof (cases rule: policy_step_cases[of s ord sl])
    case idle
    then show ?thesis using inv unfolding run_inv_def defs by auto
  next
    case c: (complete i rest p)
    note complete = c[folded defs]
    have set_eq: "set (i # rest) = set rq \<union> set ys"
      using complete(1) ys(1) by (metis set_order_queue set_append)
    have dist: "distinct (i # rest)"
      using complete(1) ys(1,3) by (metis distinct_order_queue)
    have i_in: "i \<in> set rq \<union> set ys" using set_eq by auto
    have i_lt: "i < length ps" using i_in W(1) ys(2) by auto
    have i_nd: "i \<notin> set dn" using i_in W(5) ys(4) by auto
    have i_none: "completion_time (ps ! i) = None" using W(6) i_lt i_nd by blast
    have rem1: "1 \<le> remaining_time (ps ! i)" using I5 i_none i_lt len by simp
    have rp: "remaining_time p = remaining_time (ps ! i)" by (simp add: complete(2))
    have e: "slice_len sl p = remaining_time (ps ! i)" using complete(3) by simp
    have pr: "progress sl" using slice_len_cases[of sl p] e rp rem1 by simp
    define p' where "p' = p\<lparr>remaining_time := 0, completion_time := Some (t + slice_len sl p)\<rparr>"
    define s' where "s' = policy_step ord sl s"
    have s': "processes s' = ps[i := p']" "current_time s' = t + slice_len sl p"
      "completed_processes s' = dn @ [i]" "ready_queue s' = rest" "original_processes s' = ws"
      unfolding s'_def complete(4) p'_def using I1 by simp_all
    note nth = nth_list_update[OF i_lt]
    have dp': "descr p' = descr (ps ! i)" by (simp add: p'_def complete(2) descr_def set_start_def)
    have rest_sub: "set rest \<subseteq> set rq \<union> set ys" "i \<notin> set rest" using set_eq dist by auto
    have C2: "map descr (ps[i := p']) = map descr ws"
      using map_descr_update[OF dp'] I2 by simp
    have C3: "wf_run (ps[i := p']) (dn @ [i]) rest"
      unfolding wf_run_def
    proof (intro conjI allI impI)
      show "set rest \<subseteq> {..<length (ps[i := p'])}" using rest_sub W(1) ys(2) by auto
      show "set (dn @ [i]) \<subseteq> {..<length (ps[i := p'])}" using W(2) i_lt by auto
      show "distinct rest" using dist by simp
      show "distinct (dn @ [i])" using W(4) i_nd by simp
      show "set rest \<inter> set (dn @ [i]) = {}" using rest_sub W(5) ys(4) by auto
      fix j assume "j < length (ps[i := p'])"
      then have j: "j < length ps" by simp
      show "completion_time (ps[i := p'] ! j) \<noteq> None \<longleftrightarrow> j \<in> set (dn @ [i])"
        using W(6) j by (auto simp: nth p'_def)
    qed
    have C4: "\<forall>j<length ws. j \<notin> set rest \<and> j \<notin> set (dn @ [i]) \<longrightarrow> ps[i := p'] ! j = clone (ws ! j)"
    proof (intro allI impI)
      fix j assume j: "j < length ws" and "j \<notin> set rest \<and> j \<notin> set (dn @ [i])"
      then have "j \<noteq> i" "j \<notin> set rq" "j \<notin> set dn" using set_eq by auto
      then show "ps[i := p'] ! j = clone (ws ! j)" using I4 j by simp
    qed
    have C5: "\<forall>j<length ws. completion_time (ps[i := p'] ! j) = None
                \<longrightarrow> 1 \<le> remaining_time (ps[i := p'] ! j)"
      using I5 len by (auto simp: nth p'_def)
    have bi: "1 \<le> burst_time (ws ! i)" using b i_lt len by simp
    have C6: "\<forall>j<length ws. \<forall>c. completion_time (ps[i := p'] ! j) = Some c
          \<longrightarrow> remaining_time (ps[i := p'] ! j) = 0 \<and>
              arrival_time (ws ! j) + burst_time (ws ! j) \<le> c \<and> 1 \<le> c"
    proof (intro allI impI)
      fix j c assume j: "j < length ws" and c: "completion_time (ps[i := p'] ! j) = Some c"
      show "remaining_time (ps[i := p'] ! j) = 0 \<and>
              arrival_time (ws ! j) + burst_time (ws ! j) \<le> c \<and> 1 \<le> c"
      proof (cases "j = i")
        case True
        then have "c = t + remaining_time (ps ! i)" using c j len e by (simp add: nth p'_def)
        moreover have "0 \<le> t" using I7 pr by simp
        ultimately show ?thesis using arr[OF i_in pr] rem1 True j len by (simp add: nth p'_def)
      next
        case False
        then show ?thesis using I6 j c len by (simp add: nth)
      qed
    qed
    have C7: "0 \<le> t + slice_len sl p \<and>
        (\<forall>j \<in> set rest. arrival_time (ws ! j) + burst_time (ws ! j) - remaining_time (ps[i := p'] ! j)
           \<le> t + slice_len sl p)"
    proof (intro conjI ballI)
      show "0 \<le> t + slice_len sl p" using I7 pr e rem1 by simp
      fix j assume j: "j \<in> set rest"
      then have "j \<noteq> i" "j \<in> set rq \<union> set ys" using rest_sub by auto
      then show "arrival_time (ws ! j) + burst_time (ws ! j) - remaining_time (ps[i := p'] ! j)
           \<le> t + slice_len sl p"
        using arr[of j] pr e rem1 by simp
    qed
    show ?thesis
      unfolding run_inv_def s'_def[symmetric] s'
      using C2 C3 C4 C5 C6 C7 pr by blast
  next
    case c: (requeue i rest p)
    note requeue = c[folded defs]
    have set_eq: "set (i # rest) = set rq \<union> set ys"
      using requeue(1) ys(1) by (metis set_order_queue set_append)
    have dist: "distinct (i # rest)"
      using requeue(1) ys(1,3) by (metis distinct_order_queue)
    have i_in: "i \<in> set rq \<union> set ys" using set_eq by auto
    have i_lt: "i < length ps" using i_in W(1) ys(2) by auto
    have i_nd: "i \<notin> set dn" using i_in W(5) ys(4) by auto
    have i_none: "completion_time (ps ! i) = None" using W(6) i_lt i_nd by blast
    have rem1: "1 \<le> remaining_time (ps ! i)" using I5 i_none i_lt len by simp
    have rp: "remaining_time p = remaining_time (ps ! i)" by (simp add: requeue(2))
    have ne: "slice_len sl p \<noteq> remaining_time p" using requeue(3) rp by simp
    have r1: "1 \<le> remaining_time p - slice_len sl p"
      using slice_len_requeue(1)[OF ne] rem1 rp by simp
    have e1: "progress sl \<Longrightarrow> 1 \<le> slice_len sl p"
      using slice_len_requeue(2)[OF ne] rem1 rp by simp
    define p' where "p' = p\<lparr>remaining_time := remaining_time p - slice_len sl p\<rparr>"
    define s' where "s' = policy_step ord sl s"
    have s': "processes s' = ps[i := p']" "current_time s' = t + slice_len sl p"
      "completed_processes s' = dn" "ready_queue s' = requeue sl (i # rest)"
      "original_processes s' = ws"
      unfolding s'_def requeue(4) p'_def using I1 by (simp_all add: defs)
    note nth = nth_list_update[OF i_lt]
    have dp': "descr p' = descr (ps ! i)" by (simp add: p'_def requeue(2) descr_def set_start_def)
    have cp': "completion_time p' = None" by (simp add: p'_def requeue(2) i_none)
    have rq'_set: "set (requeue sl (i # rest)) = set rq \<union> set ys"
      using set_requeue[of "i # rest" sl] set_eq by simp
    have rq'_dist: "distinct (requeue sl (i # rest))"
      using distinct_requeue[of "i # rest" sl] dist by simp
    have C2: "map descr (ps[i := p']) = map descr ws"
      using map_descr_update[OF dp'] I2 by simp
    have C3: "wf_run (ps[i := p']) dn (requeue sl (i # rest))"
      unfolding wf_run_def
    proof (intro conjI allI impI)
      show "set (requeue sl (i # rest)) \<subseteq> {..<length (ps[i := p'])}"
        using rq'_set W(1) ys(2) by auto
      show "set dn \<subseteq> {..<length (ps[i := p'])}" using W(2) by auto
      show "distinct (requeue sl (i # rest))" by (rule rq'_dist)
      show "distinct dn" by (rule W(4))
      show "set (requeue sl (i # rest)) \<inter> set dn = {}" using rq'_set W(5) ys(4) by auto
      fix j assume "j < length (ps[i := p'])"
      then have j: "j < length ps" by simp
      show "completion_time (ps[i := p'] ! j) \<noteq> None \<longleftrightarrow> j \<in> set dn"
        using W(6) j i_nd cp' by (auto simp: nth)
    qed
    have C4: "\<forall>j<length ws. j \<notin> set (requeue sl (i # rest)) \<and> j \<notin> set dn
                \<longrightarrow> ps[i := p'] ! j = clone (ws ! j)"
    proof (intro allI impI)
      fix j assume j: "j < length ws" and "j \<notin> set (requeue sl (i # rest)) \<and> j \<notin> set dn"
      then have "j \<noteq> i" "j \<notin> set rq" "j \<notin> set dn" using rq'_set i_in by auto
      then show "ps[i := p'] ! j = clone (ws ! j)" using I4 j by simp
    qed
    have C5: "\<forall>j<length ws. completion_time (ps[i := p'] ! j) = None
                \<longrightarrow> 1 \<le> remaining_time (ps[i := p'] ! j)"
      using I5 len r1 by (auto simp: nth p'_def)
    have C6: "\<forall>j<length ws. \<forall>c. completion_time (ps[i := p'] ! j) = Some c
          \<longrightarrow> remaining_time (ps[i := p'] ! j) = 0 \<and>
              arrival_time (ws ! j) + burst_time (ws ! j) \<le> c \<and> 1 \<le> c"
      using I6 len cp' by (auto simp: nth)
    have C7: "progress sl \<longrightarrow> 0 \<le> t + slice_len sl p \<and>
        (\<forall>j \<in> set (requeue sl (i # rest)).
           arrival_time (ws ! j) + burst_time (ws ! j) - remaining_time (ps[i := p'] ! j)
           \<le> t + slice_len sl p)"
    proof (intro impI conjI ballI)
      assume pr: "progress sl"
      show "0 \<le> t + slice_len sl p" using I7 pr e1 by simp
      fix j assume j: "j \<in> set (requeue sl (i # rest))"
      then have jin: "j \<in> set rq \<union> set ys" using rq'_set by auto
      then have jl: "j < length ps" using W(1) ys(2) by auto
      show "arrival_time (ws ! j) + burst_time (ws ! j) - remaining_time (ps[i := p'] ! j)
           \<le> t + slice_len sl p"
        using arr[OF jin pr] e1[OF pr] rp by (cases "j = i") (simp_all add: nth p'_def)
    qed
    show ?thesis
      unfolding run_inv_def s'_def[symmetric] s'
      using C2 C3 C4 C5 C6 C7 I8 by blast
  qed
qed

subsection \<open>Termination of the six single-queue loops\<close>

lemma work_update:
  "i < length ps \<Longrightarrow> work (ps[i := p]) = work ps - remaining_time (ps ! i) + remaining_time p"
  unfolding work_def
proof (induction ps arbitrary: i)
  case Nil
  then show ?case by simp
next
  case (Cons a ps)
  then show ?case by (cases i) simp_all
qed

lemma work_nonneg: "(\<And>i. i < length ps \<Longrightarrow> 0 \<le> remaining_time (ps ! i)) \<Longrightarrow> 0 \<le> work ps"
  unfolding work_def by (rule sum_list_nonneg) (auto simp: in_set_conv_nth)

lemma run_inv_length: "run_inv sl ws s \<Longrightarrow> length (processes s) = length ws"
proof -
  assume "run_inv sl ws s"
  then have "map descr (processes s) = map descr ws" unfolding run_inv_def by blast
  then show ?thesis by (rule map_eq_imp_length_eq)
qed

lemma run_inv_wf:
  "run_inv sl ws s \<Longrightarrow> wf_run (processes s) (completed_processes s) (ready_queue s)"
  unfolding run_inv_def by blast

lemma run_inv_pending:
  "run_inv sl ws s \<Longrightarrow> i < length ws \<Longrightarrow> completion_time (processes s ! i) = None
     \<Longrightarrow> 1 \<le> remaining_time (processes s ! i)"
  unfolding run_inv_def by blast

lemma run_inv_completed:
  "run_inv sl ws s \<Longrightarrow> i < length ws \<Longrightarrow> completion_time (processes s ! i) = Some c
     \<Longrightarrow> remaining_time (processes s ! i) = 0 \<and>
         arrival_time (ws ! i) + burst_time (ws ! i) \<le> c \<and> 1 \<le> c"
  unfolding run_inv_def by blast

lemma run_inv_remaining_nonneg:
  assumes "run_inv sl ws s" "i < length (processes s)"
  shows "0 \<le> remaining_time (processes s ! i)"
proof -
  have i: "i < length ws" using run_inv_length[OF assms(1)] assms(2) by simp
  show ?thesis
  proof (cases "completion_time (processes s ! i)")
    case None
    from run_inv_pending[OF assms(1) i None] show ?thesis by simp
  next
    case (Some c)
    from run_inv_completed[OF assms(1) i Some] show ?thesis by simp
  qed
qed

lemma run_inv_work_nonneg: "run_inv sl ws s \<Longrightarrow> 0 \<le> work (processes s)"
  by (rule work_nonneg) (rule run_inv_remaining_nonneg)

lemma pending_exists:
  assumes "wf_run ps dn rq" "length dn < length ps"
  obtains j where "j < length ps" "j \<notin> set dn"
proof -
  have d: "distinct dn" using assms(1) unfolding wf_run_def by blast
  have "\<not> {..<length ps} \<subseteq> set dn"
  proof
    assume "{..<length ps} \<subseteq> set dn"
    then have "card {..<length ps} \<le> card (set dn)" by (intro card_mono) simp_all
    then have "length ps \<le> length dn" using distinct_card[OF d] by simp
    with assms(2) show False by simp
  qed
  then obtain j where "j \<in> {..<length ps}" "j \<notin> set dn" by blast
  then show ?thesis using that by simp
qed

lemma policy_step_decreases:
  assumes b: "\<forall>p \<in> set ws. 1 \<le> burst_time p" and inv: "run_inv sl ws s"
    and pr: "progress sl" and lc: "loop_cond s"
  shows "(policy_step ord sl s, s)
           \<in> measures [\<lambda>s. nat (work (processes s)), \<lambda>s. idle_left ws (current_time s)]"
proof -
  define ps where "ps = processes s"
  define t where "t = current_time s"
  define dn where "dn = completed_processes s"
  define rq where "rq = ready_queue s"
  note defs = ps_def t_def dn_def rq_def
  have I2: "map descr ps = map descr ws"
    and I3: "wf_run ps dn rq"
    and I5: "\<forall>i<length ws. completion_time (ps ! i) = None \<longrightarrow> 1 \<le> remaining_time (ps ! i)"
    using inv unfolding run_inv_def defs by blast+
  have len: "length ps = length ws" using I2 by (metis length_map)
  have W: "set rq \<subseteq> {..<length ps}" "set dn \<subseteq> {..<length ps}"
    "set rq \<inter> set dn = {}"
    "\<forall>i<length ps. completion_time (ps ! i) \<noteq> None \<longleftrightarrow> i \<in> set dn"
    using I3 unfolding wf_run_def by blast+
  from admit_wf[OF I3, of t] obtain ys where
    ys: "admit ps t dn rq = rq @ ys" "set ys \<subseteq> {..<length ps}" "distinct (rq @ ys)"
      "set ys \<inter> set dn = {}" "\<forall>i \<in> set ys. arrival_time (ps ! i) \<le> t" "set ys \<inter> set rq = {}"
    by blast
  have inv': "run_inv sl ws (policy_step ord sl s)" by (rule run_inv_step[OF b inv])
  have w0: "0 \<le> work (processes (policy_step ord sl s))" by (rule run_inv_work_nonneg[OF inv'])
  have head: "i < length ps \<and> 1 \<le> remaining_time (ps ! i)"
    if "order_queue ord ps (admit ps t dn rq) = i # rest" for i rest
  proof -
    have "set (i # rest) = set rq \<union> set ys"
      using that ys(1) by (metis set_order_queue set_append)
    then have i_in: "i \<in> set rq \<union> set ys" by auto
    then have i_lt: "i < length ps" using W(1) ys(2) by auto
    have "i \<notin> set dn" using i_in W(3) ys(4) by auto
    then have "completion_time (ps ! i) = None" using W(4) i_lt by blast
    then show ?thesis using I5 i_lt len by simp
  qed
  show ?thesis
  proof (cases rule: policy_step_cases[of s ord sl])
    case c: idle
    note idle = c[folded defs]
    from pending_exists[OF I3] lc obtain j where j: "j < length ps" "j \<notin> set dn"
      unfolding loop_cond_def defs by blast
    have "\<not> obj_in ps j dn" using obj_in_done[OF I3 j(1)] j(2) by simp
    moreover have "\<not> obj_in ps j (admit ps t dn rq)" using idle(1) by (simp add: obj_in_Nil)
    ultimately have "\<not> arrival_time (ps ! j) \<le> t"
      using admit_covers[OF j(1), of t dn rq] by blast
    then have a1: "t < arrival_time (ps ! j)" by simp
    have "descr (ps ! j) = descr (ws ! j)" using descr_nth[OF I2] j(1) len by simp
    then have a2: "arrival_time (ps ! j) = arrival_time (ws ! j)" by (simp add: descr_def)
    have "ws ! j \<in> set ws" using j(1) len by simp
    then have "arrival_time (ws ! j) \<in> insert 0 (arrival_time ` set ws)" by blast
    then have a3: "arrival_time (ws ! j) \<le> Max (insert 0 (arrival_time ` set ws))"
      by (intro Max_ge) simp_all
    define M where "M = Max (insert 0 (arrival_time ` set ws))"
    have "nat (M - (t + 1)) < nat (M - t)" using a1 a2 a3 unfolding M_def[symmetric] by linarith
    then have "idle_left ws (t + 1) < idle_left ws t"
      unfolding idle_left_def M_def .
    then show ?thesis unfolding idle by (simp add: defs)
  next
    case c: (complete i rest p)
    note complete = c[folded defs]
    from head[OF complete(1)] have i: "i < length ps" "1 \<le> remaining_time (ps ! i)" by auto
    have "work (processes (policy_step ord sl s)) = work ps - remaining_time (ps ! i)"
      unfolding complete(4) using work_update[OF i(1)] by simp
    then have "nat (work (processes (policy_step ord sl s))) < nat (work ps)"
      using w0 i(2) by linarith
    then show ?thesis by (simp add: defs)
  next
    case c: (requeue i rest p)
    note requeue = c[folded defs]
    from head[OF requeue(1)] have i: "i < length ps" "1 \<le> remaining_time (ps ! i)" by auto
    have rp: "remaining_time p = remaining_time (ps ! i)" by (simp add: requeue(2))
    have "1 \<le> slice_len sl p"
      using slice_len_requeue(2)[of sl p] requeue(3) rp i(2) pr by simp
    moreover have "work (processes (policy_step ord sl s)) = work ps - slice_len sl p"
      unfolding requeue(4) using work_update[OF i(1)] rp by simp
    ultimately have "nat (work (processes (policy_step ord sl s))) < nat (work ps)"
      using w0 by linarith
    then show ?thesis by (simp add: defs)
  qed
qed

lemma policy_run_terminates:
  assumes "\<forall>p \<in> set (original_processes self). 1 \<le> burst_time p" "progress sl"
  shows "\<exists>s. policy_run ord sl self = Some s"
  unfolding policy_run_def
proof (rule wf_rel_while_option_Some[where P = "run_inv sl (original_processes self)"])
  show "wf (measures [\<lambda>s. nat (work (processes s)),
                       \<lambda>s. idle_left (original_processes self) (current_time s)])"
    by simp
  show "(policy_step ord sl s, s) \<in> measures [\<lambda>s. nat (work (processes s)),
                       \<lambda>s. idle_left (original_processes self) (current_time s)]"
    if "run_inv sl (original_processes self) s \<and> loop_cond s" for s
    using policy_step_decreases[OF assms(1) _ assms(2)] that by blast
  show "run_inv sl (original_processes self) (policy_step ord sl s)"
    if "run_inv sl (original_processes self) s \<and> loop_cond s" for s
    using run_inv_step[OF assms(1)] that by blast
  show "run_inv sl (original_processes self) (start_run (reset_processes self))"
    by (rule run_inv_start[OF assms(1)])
qed

subsection \<open>The metrics of a run without completed records\<close>

lemma run_policy_empty:
  "run_policy pol (Scheduler_init []) = Some (Inr zero_metrics, Scheduler_init [])"
proof -
  have s: "start_run (reset_processes (Scheduler_init [])) =
      \<lparr>original_processes = [], processes = [], current_time = 0, completed_processes = [],
       ready_queue = []\<rparr>"
    by (simp add: start_run_def reset_processes_def Scheduler_init_def)
  have m: "start_mlq (reset_processes (Scheduler_init [])) =
      \<lparr>original_processes = [], processes = [], current_time = 0, completed_processes = [],
       queues = [[], [], []]\<rparr>"
    by (simp add: start_mlq_def reset_processes_def Scheduler_init_def)
  have f: "finish \<lparr>original_processes = [], processes = [], current_time = 0,
             completed_processes = [], ready_queue = []\<rparr> = (Inr zero_metrics, Scheduler_init [])"
    by (simp add: finish_def the_scheduler_def get_metrics_def zero_metrics_def
        Scheduler_init_def reset_processes_def)
  have g: "finish \<lparr>original_processes = [], processes = [], current_time = 0,
             completed_processes = [], queues = [[], [], []]\<rparr> = (Inr zero_metrics, Scheduler_init [])"
    by (simp add: finish_def the_scheduler_def get_metrics_def zero_metrics_def
        Scheduler_init_def reset_processes_def)
  show ?thesis
  proof (cases pol)
    case FCFS
    then show ?thesis
      by (simp add: run_policy_def fcfs_def fcfs_run_def s while_option_unfold loop_cond_def f)
  next
    case SJF_NP
    then show ?thesis
      by (simp add: run_policy_def sjf_nonpreemptive_def sjf_nonpreemptive_run_def s
          while_option_unfold loop_cond_def f)
  next
    case SJF_P
    then show ?thesis
      by (simp add: run_policy_def sjf_preemptive_def sjf_preemptive_run_def s
          while_option_unfold loop_cond_def f)
  next
    case (RR q)
    then show ?thesis
      by (simp add: run_policy_def round_robin_def round_robin_run_def s
          while_option_unfold loop_cond_def f)
  next
    case PRIO_NP
    then show ?thesis
      by (simp add: run_policy_def priority_nonpreemptive_def priority_nonpreemptive_run_def s
          while_option_unfold loop_cond_def f)
  next
    case PRIO_P
    then show ?thesis
      by (simp add: run_policy_def priority_preemptive_def priority_preemptive_run_def s
          while_option_unfold loop_cond_def f)
  next
    case (MLQ q)
    then show ?thesis
      by (simp add: run_policy_def multilevel_queue_def multilevel_queue_run_def m
          while_option_unfold mlq_cond_def loop_cond_def g)
  qed
qed

text \<open>
  Claim C8.  \<open>get_metrics\<close> looks only at the records whose \<open>completion_time\<close> is set:
  its result does not change when the other records are dropped.  If no record is completed,
  it raises nothing and returns the four metrics as 0; so it does after construction on the
  empty workload, and every policy run on the empty workload returns these zero metrics.
\<close>

theorem get_metrics_none_completed:
  "get_metrics self = get_metrics (self\<lparr>processes := filter (\<lambda>p. completion_time p \<noteq> None) (processes self)\<rparr>)
   \<and> ((\<forall>p \<in> set (processes self). completion_time p = None) \<longrightarrow> get_metrics self = Inr zero_metrics)
   \<and> get_metrics (Scheduler_init []) = Inr zero_metrics
   \<and> run_policy pol (Scheduler_init []) = Some (Inr zero_metrics, Scheduler_init [])"
proof (intro conjI impI)
  show "get_metrics self = get_metrics (self\<lparr>processes := filter (\<lambda>p. completion_time p \<noteq> None) (processes self)\<rparr>)"
    by (simp add: get_metrics_def)
  show "get_metrics self = Inr zero_metrics" if "\<forall>p \<in> set (processes self). completion_time p = None"
  proof -
    have "filter (\<lambda>p. completion_time p \<noteq> None) (processes self) = []"
      using that by (simp add: filter_empty_conv)
    then show ?thesis by (simp add: get_metrics_def zero_metrics_def)
  qed
  show "get_metrics (Scheduler_init []) = Inr zero_metrics"
    by (simp add: get_metrics_def zero_metrics_def Scheduler_init_def reset_processes_def)
  show "run_policy pol (Scheduler_init []) = Some (Inr zero_metrics, Scheduler_init [])"
    by (rule run_policy_empty)
qed

theorem get_metrics_none_completed_witness:
  "map completion_time (processes (Scheduler_init [\<lparr>pid = 0, arrival_time = 0, burst_time = 5,
        priority = 1, remaining_time = 0, start_time = None, completion_time = None\<rparr>])) = [None]
   \<and> get_metrics (Scheduler_init [\<lparr>pid = 0, arrival_time = 0, burst_time = 5, priority = 1,
        remaining_time = 0, start_time = None, completion_time = None\<rparr>]) = Inr zero_metrics"
proof -
  let ?s = "Scheduler_init [\<lparr>pid = 0, arrival_time = 0, burst_time = 5, priority = 1,
        remaining_time = 0, start_time = None, completion_time = None\<rparr>]"
  have m: "map completion_time (processes ?s) = [None]"
    by (simp add: Scheduler_init_def reset_processes_def clone_def)
  have h: "\<forall>p \<in> set (processes ?s). completion_time p = None"
    by (simp add: Scheduler_init_def reset_processes_def clone_def)
  from get_metrics_none_completed[of ?s FCFS]
  have "(\<forall>p \<in> set (processes ?s). completion_time p = None) \<longrightarrow> get_metrics ?s = Inr zero_metrics"
    by blast
  with h m show ?thesis by blast
qed

subsection \<open>The admission scan of Multilevel Queue\<close>

lemma list_index_less: "list_index n k = Some j \<Longrightarrow> j < n"
  by (auto simp: list_index_def split: if_splits)

lemma mlq_fold_Inl: "fold (mlq_admit_one ps t dn) xs (Inl e) = Inl e"
  by (induction xs) (simp_all add: mlq_admit_one_def)

lemma mlq_admit_one_cases:
  assumes "mlq_admit_one ps t dn i (Inr qs1) = Inr qs2"
  obtains (skip) "qs2 = qs1"
      "\<not> (arrival_time (ps ! i) \<le> t \<and> \<not> obj_in ps i dn \<and> \<not> (\<exists>q \<in> set qs1. obj_in ps i q))"
    | (add) k where "list_index (length qs1) (min (priority (ps ! i) div 4) 2) = Some k"
      "qs2 = qs1[k := qs1 ! k @ [i]]" "arrival_time (ps ! i) \<le> t" "\<not> obj_in ps i dn"
      "\<forall>q \<in> set qs1. \<not> obj_in ps i q"
proof (cases "arrival_time (ps ! i) \<le> t \<and> \<not> obj_in ps i dn \<and> \<not> (\<exists>q \<in> set qs1. obj_in ps i q)")
  case False
  then have "mlq_admit_one ps t dn i (Inr qs1) = Inr qs1"
    unfolding mlq_admit_one_def by auto
  with assms have "qs2 = qs1" by simp
  then show ?thesis using False by (rule skip)
next
  case True
  then have eq: "mlq_admit_one ps t dn i (Inr qs1) =
      (case list_index (length qs1) (min (priority (ps ! i) div 4) 2) of
         None \<Rightarrow> Inl IndexError | Some k \<Rightarrow> Inr (qs1[k := qs1 ! k @ [i]]))"
    unfolding mlq_admit_one_def by (simp add: Let_def)
  show ?thesis
  proof (cases "list_index (length qs1) (min (priority (ps ! i) div 4) 2)")
    case None
    then show ?thesis using eq assms by simp
  next
    case (Some k)
    then have "qs2 = qs1[k := qs1 ! k @ [i]]" using eq assms by simp
    with Some show ?thesis using True by (intro add[of k]) auto
  qed
qed

lemma mlq_fold_rule:
  assumes "fold (mlq_admit_one ps t dn) xs (Inr qs) = Inr qs'" "Q qs"
    and "\<And>i qs1 qs2. i \<in> set xs \<Longrightarrow> Q qs1 \<Longrightarrow> mlq_admit_one ps t dn i (Inr qs1) = Inr qs2 \<Longrightarrow> Q qs2"
  shows "Q qs'"
  using assms
proof (induction xs arbitrary: qs)
  case Nil
  then show ?case by simp
next
  case (Cons x xs)
  show ?case
  proof (cases "mlq_admit_one ps t dn x (Inr qs)")
    case (Inl e)
    then show ?thesis using Cons.prems(1) by (simp add: mlq_fold_Inl)
  next
    case (Inr qs1)
    have q: "Q qs1" using Cons.prems(3)[of x qs qs1] Cons.prems(2) Inr by simp
    have f: "fold (mlq_admit_one ps t dn) xs (Inr qs1) = Inr qs'"
      using Cons.prems(1) Inr by simp
    have r: "\<And>i qs1 qs2. i \<in> set xs \<Longrightarrow> Q qs1
        \<Longrightarrow> mlq_admit_one ps t dn i (Inr qs1) = Inr qs2 \<Longrightarrow> Q qs2"
      using Cons.prems(3) by (meson list.set_intros(2))
    show ?thesis by (rule Cons.IH[OF f q r])
  qed
qed

lemma admitted_to_refl: "admitted_to ps t dn qs qs"
  unfolding admitted_to_def by auto

lemma admitted_to_step:
  assumes Q: "admitted_to ps t dn qs qs1" and i: "i < length ps"
    and st: "mlq_admit_one ps t dn i (Inr qs1) = Inr qs2"
  shows "admitted_to ps t dn qs qs2"
  using st
proof (cases rule: mlq_admit_one_cases)
  case skip
  then show ?thesis using Q by simp
next
  case (add k)
  have len: "length qs1 = length qs" using Q unfolding admitted_to_def by blast
  have k: "k < length qs" using list_index_less[OF add(1)] len by simp
  have nin: "i \<notin> set q" if "q \<in> set qs1" for q
    using add(5) that obj_in_self by blast
  have nin_k: "i \<notin> set (qs1 ! j)" if "j < length qs" for j
    using nin[of "qs1 ! j"] that len by simp
  have sub: "set (qs ! j) \<subseteq> set (qs1 ! j)" if "j < length qs" for j
    using Q that unfolding admitted_to_def by fastforce
  have nin0: "\<forall>q \<in> set qs. i \<notin> set q"
  proof
    fix q assume "q \<in> set qs"
    then obtain j where j: "j < length qs" "q = qs ! j" by (auto simp: in_set_conv_nth)
    then show "i \<notin> set q" using nin_k[of j] sub[of j] by blast
  qed
  have idn: "i \<notin> set dn" using add(4) obj_in_self by blast
  show ?thesis
    unfolding admitted_to_def
  proof (intro conjI allI impI)
    show "length qs2 = length qs" using add(2) len by simp
    fix j assume j: "j < length qs"
    from Q j obtain zs where zs: "qs1 ! j = qs ! j @ zs" "distinct zs" "set zs \<subseteq> {..<length ps}"
      "\<forall>i \<in> set zs. arrival_time (ps ! i) \<le> t \<and> i \<notin> set dn \<and>
           (\<forall>q \<in> set qs. i \<notin> set q) \<and>
           list_index (length qs) (min (priority (ps ! i) div 4) 2) = Some j"
      unfolding admitted_to_def by blast
    show "\<exists>zs. qs2 ! j = qs ! j @ zs \<and> distinct zs \<and> set zs \<subseteq> {..<length ps} \<and>
        (\<forall>i \<in> set zs. arrival_time (ps ! i) \<le> t \<and> i \<notin> set dn \<and>
           (\<forall>q \<in> set qs. i \<notin> set q) \<and>
           list_index (length qs) (min (priority (ps ! i) div 4) 2) = Some j)"
    proof (cases "j = k")
      case True
      have "qs2 ! j = qs ! j @ (zs @ [i])" using add(2) True k len zs(1) by simp
      moreover have "distinct (zs @ [i])" using zs(1,2) nin_k[OF j] by auto
      moreover have "set (zs @ [i]) \<subseteq> {..<length ps}" using zs(3) i by auto
      moreover have "\<forall>i' \<in> set (zs @ [i]). arrival_time (ps ! i') \<le> t \<and> i' \<notin> set dn \<and>
           (\<forall>q \<in> set qs. i' \<notin> set q) \<and>
           list_index (length qs) (min (priority (ps ! i') div 4) 2) = Some j"
        using zs(4) add(1,3) idn nin0 True len by auto
      ultimately show ?thesis by blast
    next
      case False
      then have "qs2 ! j = qs1 ! j" using add(2) by simp
      then show ?thesis using zs by auto
    qed
  qed
qed

lemma mlq_admit_shape:
  assumes "mlq_admit ps t dn qs = Inr qs'"
  shows "admitted_to ps t dn qs qs'"
  using assms unfolding mlq_admit_def
  by (rule mlq_fold_rule[where Q = "admitted_to ps t dn qs"])
    (auto intro: admitted_to_refl admitted_to_step)

lemma mlq_admit_one_mono:
  assumes "mlq_admit_one ps t dn x (Inr qs1) = Inr qs2" "\<exists>q \<in> set qs1. obj_in ps i q"
  shows "\<exists>q \<in> set qs2. obj_in ps i q"
  using assms(1)
proof (cases rule: mlq_admit_one_cases)
  case skip
  then show ?thesis using assms(2) by simp
next
  case (add k)
  from assms(2) obtain j where j: "j < length qs1" "obj_in ps i (qs1 ! j)"
    by (auto simp: in_set_conv_nth)
  have k: "k < length qs1" using list_index_less[OF add(1)] .
  have "obj_in ps i (qs2 ! j)"
    using j k add(2) by (cases "j = k") (simp_all add: obj_in_append)
  moreover have "j < length qs2" using j add(2) by simp
  ultimately show ?thesis using nth_mem by blast
qed

lemma mlq_fold_covers:
  assumes "fold (mlq_admit_one ps t dn) xs (Inr qs) = Inr qs'"
    and "i \<in> set xs" "arrival_time (ps ! i) \<le> t" "\<not> obj_in ps i dn"
  shows "\<exists>q \<in> set qs'. obj_in ps i q"
  using assms
proof (induction xs arbitrary: qs)
  case Nil
  then show ?case by simp
next
  case (Cons x xs)
  show ?case
  proof (cases "mlq_admit_one ps t dn x (Inr qs)")
    case (Inl e)
    then show ?thesis using Cons.prems(1) by (simp add: mlq_fold_Inl)
  next
    case (Inr qs1)
    then have f: "fold (mlq_admit_one ps t dn) xs (Inr qs1) = Inr qs'"
      using Cons.prems(1) by simp
    show ?thesis
    proof (cases "i = x")
      case True
      have "\<exists>q \<in> set qs1. obj_in ps i q"
        using Inr
      proof (cases rule: mlq_admit_one_cases)
        case skip
        then show ?thesis using Cons.prems(3,4) True by blast
      next
        case (add k)
        have k: "k < length qs" using list_index_less[OF add(1)] .
        have "obj_in ps i (qs1 ! k)" using add(2) k True by (simp add: obj_in_append obj_in_def)
        moreover have "k < length qs1" using add(2) k by simp
        ultimately show ?thesis using nth_mem by blast
      qed
      then show ?thesis
        using f by (rule_tac mlq_fold_rule[OF f, where Q = "\<lambda>qs. \<exists>q \<in> set qs. obj_in ps i q"])
          (auto intro: mlq_admit_one_mono)
    next
      case False
      then show ?thesis using Cons.IH[OF f] Cons.prems by simp
    qed
  qed
qed

lemma mlq_admit_covers:
  assumes "mlq_admit ps t dn qs = Inr qs'" "i < length ps" "arrival_time (ps ! i) \<le> t"
    "\<not> obj_in ps i dn"
  shows "\<exists>q \<in> set qs'. obj_in ps i q"
  using assms unfolding mlq_admit_def by (intro mlq_fold_covers[of ps t dn _ qs]) auto

text \<open>The scan raises exactly when it meets a record whose tier index is out of range.\<close>

lemma mlq_fold_no_error:
  assumes "\<forall>i \<in> set xs. list_index (length qs) (min (priority (ps ! i) div 4) 2) \<noteq> None"
  shows "\<exists>qs'. fold (mlq_admit_one ps t dn) xs (Inr qs) = Inr qs' \<and> length qs' = length qs"
  using assms
proof (induction xs arbitrary: qs)
  case Nil
  then show ?case by simp
next
  case (Cons x xs)
  from Cons.prems obtain k where k: "list_index (length qs) (min (priority (ps ! x) div 4) 2) = Some k"
    by auto
  have "\<exists>qs1. mlq_admit_one ps t dn x (Inr qs) = Inr qs1 \<and> length qs1 = length qs"
  proof (cases "arrival_time (ps ! x) \<le> t \<and> \<not> obj_in ps x dn \<and> \<not> (\<exists>q \<in> set qs. obj_in ps x q)")
    case True
    then show ?thesis unfolding mlq_admit_one_def using k by (simp add: Let_def)
  next
    case False
    then show ?thesis unfolding mlq_admit_one_def by auto
  qed
  then obtain qs1 where q1: "mlq_admit_one ps t dn x (Inr qs) = Inr qs1" "length qs1 = length qs"
    by blast
  with Cons.IH[of qs1] Cons.prems show ?case by simp
qed

lemma mlq_admit_no_error:
  assumes "\<forall>i<length ps. list_index (length qs) (min (priority (ps ! i) div 4) 2) \<noteq> None"
  shows "\<exists>qs'. mlq_admit ps t dn qs = Inr qs'"
  using mlq_fold_no_error[of "[0..<length ps]" qs ps t dn] assms unfolding mlq_admit_def by auto

subsection \<open>One step of Multilevel Queue\<close>

lemma first_nonempty_props:
  assumes "\<not> (\<forall>q \<in> set qs. q = [])"
  shows "first_nonempty qs < length qs" "qs ! first_nonempty qs \<noteq> []"
    "\<forall>j<first_nonempty qs. qs ! j = []"
proof -
  define n where "n = length (takeWhile (\<lambda>q. q = []) qs)"
  have "n \<noteq> length qs"
  proof
    assume "n = length qs"
    then have "takeWhile (\<lambda>q. q = []) qs = qs"
      unfolding n_def by (metis takeWhile_eq_take take_all order_refl)
    then have "\<forall>q \<in> set qs. q = []" by (simp add: takeWhile_eq_all_conv)
    with assms show False by simp
  qed
  moreover have "n \<le> length qs" unfolding n_def by (rule length_takeWhile_le)
  ultimately have lt: "n < length qs" by simp
  then show "first_nonempty qs < length qs" unfolding first_nonempty_def n_def .
  show "qs ! first_nonempty qs \<noteq> []"
    using nth_length_takeWhile[of "\<lambda>q. q = []" qs] lt unfolding first_nonempty_def n_def by simp
  show "\<forall>j<first_nonempty qs. qs ! j = []"
  proof (intro allI impI)
    fix j assume j: "j < first_nonempty qs"
    then have "takeWhile (\<lambda>q. q = []) qs ! j = qs ! j"
      unfolding first_nonempty_def by (rule takeWhile_nth)
    moreover have "takeWhile (\<lambda>q. q = []) qs ! j \<in> set (takeWhile (\<lambda>q. q = []) qs)"
      using j unfolding first_nonempty_def by simp
    ultimately show "qs ! j = []" using set_takeWhileD by fastforce
  qed
qed

lemma multilevel_queue_step_cases [case_names error idle complete requeue]:
  fixes s :: mlq_state and quantum :: int
  defines "ps \<equiv> processes s" and "t \<equiv> current_time s"
    and "dn \<equiv> completed_processes s" and "qs \<equiv> queues s"
    and "r \<equiv> multilevel_queue_step quantum s"
  obtains
    (error) e where "mlq_admit ps t dn qs = Inl e" "r = Inl e"
  | (idle) qs' where "mlq_admit ps t dn qs = Inr qs'" "\<forall>q \<in> set qs'. q = []"
      "r = Inr (s\<lparr>current_time := t + 1, queues := qs'\<rparr>)"
  | (complete) qs' k i rest p e where
      "mlq_admit ps t dn qs = Inr qs'" "k < length qs'" "\<forall>j<k. qs' ! j = []"
      "qs' ! k = i # rest" "p = set_start t (ps ! i)"
      "e = (if k = 0 then remaining_time (ps ! i) else min quantum (remaining_time (ps ! i)))"
      "remaining_time (ps ! i) = e"
      "r = Inr (s\<lparr>processes := ps[i := p\<lparr>remaining_time := 0, completion_time := Some (t + e)\<rparr>],
              current_time := t + e,
              completed_processes := dn @ [i],
              queues := qs'[k := rest]\<rparr>)"
  | (requeue) qs' k i rest p e where
      "mlq_admit ps t dn qs = Inr qs'" "k < length qs'" "\<forall>j<k. qs' ! j = []"
      "qs' ! k = i # rest" "p = set_start t (ps ! i)"
      "e = (if k = 0 then remaining_time (ps ! i) else min quantum (remaining_time (ps ! i)))"
      "remaining_time (ps ! i) \<noteq> e"
      "r = Inr (s\<lparr>processes := ps[i := p\<lparr>remaining_time := remaining_time (ps ! i) - e\<rparr>],
              current_time := t + e,
              queues := qs'[k := rest @ [i]]\<rparr>)"
proof (cases "mlq_admit ps t dn qs")
  case (Inl e)
  moreover have "r = Inl e"
    using Inl by (simp add: r_def multilevel_queue_step_def ps_def t_def dn_def qs_def)
  ultimately show ?thesis by (rule error)
next
  case (Inr qs')
  show ?thesis
  proof (cases "\<forall>q \<in> set qs'. q = []")
    case True
    have "r = Inr (s\<lparr>current_time := t + 1, queues := qs'\<rparr>)"
      using Inr True by (simp add: r_def multilevel_queue_step_def ps_def t_def dn_def qs_def)
    with Inr True show ?thesis by (rule idle)
  next
    case False
    define k where "k = first_nonempty qs'"
    have k: "k < length qs'" "qs' ! k \<noteq> []" "\<forall>j<k. qs' ! j = []"
      using first_nonempty_props[OF False] unfolding k_def by blast+
    obtain i rest where ir: "qs' ! k = i # rest" using k(2) by (cases "qs' ! k") auto
    define p where "p = set_start t (ps ! i)"
    define e where "e = (if k = 0 then remaining_time (ps ! i) else min quantum (remaining_time (ps ! i)))"
    have k': "first_nonempty qs' < length qs'" using k(1) unfolding k_def .
    have ir': "qs' ! first_nonempty qs' = i # rest" using ir unfolding k_def .
    note nf = False
    note unf = r_def multilevel_queue_step_def ps_def t_def dn_def qs_def p_def
    show ?thesis
    proof (cases "k = 0")
      case True
      then have k0: "first_nonempty qs' = 0" unfolding k_def .
      have e: "e = remaining_time (ps ! i)" using True by (simp add: e_def)
      have "r = Inr (s\<lparr>processes := ps[i := p\<lparr>remaining_time := 0, completion_time := Some (t + e)\<rparr>],
              current_time := t + e,
              completed_processes := dn @ [i],
              queues := qs'[k := rest]\<rparr>)"
        using Inr ir' k' unfolding unf e True by (simp add: Let_def k0 nf)
      with Inr k(1,3) ir p_def e_def e[symmetric] show ?thesis by (rule complete)
    next
      case kpos: False
      then have kp: "first_nonempty qs' \<noteq> 0" unfolding k_def .
      show ?thesis
      proof (cases "remaining_time (ps ! i) \<le> quantum")
        case True
        then have m: "min quantum (remaining_time (processes s ! i)) = remaining_time (processes s ! i)"
          unfolding ps_def by simp
        have e: "e = remaining_time (ps ! i)" using kpos True by (simp add: e_def)
        have "r = Inr (s\<lparr>processes := ps[i := p\<lparr>remaining_time := 0, completion_time := Some (t + e)\<rparr>],
              current_time := t + e,
              completed_processes := dn @ [i],
              queues := qs'[k := rest]\<rparr>)"
          using Inr ir' k' kp unfolding unf e k_def by (simp add: Let_def m nf)
        with Inr k(1,3) ir p_def e_def e[symmetric] show ?thesis by (rule complete)
      next
        case gt: False
        then have m: "min quantum (remaining_time (processes s ! i)) = quantum"
          and ne0: "remaining_time (processes s ! i) \<noteq> quantum"
          unfolding ps_def by simp_all
        have e: "e = quantum" using kpos gt by (simp add: e_def)
        have ne: "remaining_time (ps ! i) \<noteq> e" using gt e by simp
        have "r = Inr (s\<lparr>processes := ps[i := p\<lparr>remaining_time := remaining_time (ps ! i) - e\<rparr>],
              current_time := t + e,
              queues := qs'[k := rest @ [i]]\<rparr>)"
          using Inr ir' k' kp unfolding unf e k_def by (simp add: Let_def m ne0 nf)
        with Inr k(1,3) ir p_def e_def ne show ?thesis by (rule requeue)
      qed
    qed
  qed
qed

subsection \<open>The invariant of the Multilevel Queue loop\<close>

lemma mlq_inv_start:
  assumes "\<forall>p \<in> set (original_processes self). 1 \<le> burst_time p"
  shows "mlq_inv quantum (original_processes self) (start_mlq (reset_processes self))"
  using assms
  by (auto simp: mlq_inv_def start_mlq_def reset_processes_def mlq_wf_def descr_def clone_def
      less_Suc_eq numeral_3_eq_3)

lemma tier_slot_descr: "descr p = descr q \<Longrightarrow> tier_slot p = tier_slot q"
  by (simp add: tier_slot_def descr_def)

lemma mlq_inv_admit:
  assumes inv: "mlq_inv quantum ws s"
    and adm: "mlq_admit (processes s) (current_time s) (completed_processes s) (queues s) = Inr qs'"
  shows "mlq_inv quantum ws (s\<lparr>queues := qs'\<rparr>)"
proof -
  define ps where "ps = processes s"
  define t where "t = current_time s"
  define dn where "dn = completed_processes s"
  define qs where "qs = queues s"
  note defs = ps_def t_def dn_def qs_def
  have I1: "original_processes s = ws"
    and I2: "map descr ps = map descr ws"
    and I3: "mlq_wf ps dn qs"
    and I4: "\<forall>k<3. \<forall>i \<in> set (qs ! k). tier_slot (ws ! i) = Some k"
    and I5: "\<forall>i<length ws. (\<forall>k<3. i \<notin> set (qs ! k)) \<and> i \<notin> set dn \<longrightarrow> ps ! i = clone (ws ! i)"
    and I6: "\<forall>i<length ws. completion_time (ps ! i) = None \<longrightarrow> 1 \<le> remaining_time (ps ! i)"
    and I7: "\<forall>i<length ws. \<forall>c. completion_time (ps ! i) = Some c
          \<longrightarrow> remaining_time (ps ! i) = 0 \<and> arrival_time (ws ! i) + burst_time (ws ! i) \<le> c"
    and I8: "\<forall>i \<in> set (qs ! 0). remaining_time (ps ! i) = burst_time (ws ! i) \<and> arrival_time (ws ! i) \<le> t"
    and I9: "1 \<le> quantum \<longrightarrow> (\<forall>k<3. \<forall>i \<in> set (qs ! k).
           arrival_time (ws ! i) + burst_time (ws ! i) - remaining_time (ps ! i) \<le> t)"
    and I10: "(0 \<le> t \<and> (\<forall>i<length ws. \<forall>c. completion_time (ps ! i) = Some c \<longrightarrow> 1 \<le> c)) \<or>
      (quantum < 1 \<and> (qs ! 1 \<noteq> [] \<or> qs ! 2 \<noteq> []))"
    using inv unfolding mlq_inv_def defs by blast+
  have len: "length ps = length ws" using I2 by (rule map_eq_imp_length_eq)
  have W: "length qs = 3"
    "\<forall>k<3. set (qs ! k) \<subseteq> {..<length ps} \<and> distinct (qs ! k) \<and> set (qs ! k) \<inter> set dn = {}"
    using I3 unfolding mlq_wf_def by blast+
  have Wr: "set dn \<subseteq> {..<length ps}" "distinct dn"
    "\<forall>i<length ps. completion_time (ps ! i) \<noteq> None \<longleftrightarrow> i \<in> set dn"
    using I3 unfolding mlq_wf_def by blast+
  have A: "admitted_to ps t dn qs qs'"
    using mlq_admit_shape adm unfolding defs by blast
  have len': "length qs' = 3" using A W(1) unfolding admitted_to_def by simp
  have ext: "\<exists>zs. qs' ! k = qs ! k @ zs \<and> distinct zs \<and> set zs \<subseteq> {..<length ps} \<and>
        (\<forall>i \<in> set zs. arrival_time (ps ! i) \<le> t \<and> i \<notin> set dn \<and>
           (\<forall>j<3. i \<notin> set (qs ! j)) \<and> tier_slot (ws ! i) = Some k \<and> ps ! i = clone (ws ! i))"
    if k: "k < 3" for k
  proof -
    from A k W(1) obtain zs where zs: "qs' ! k = qs ! k @ zs" "distinct zs" "set zs \<subseteq> {..<length ps}"
      "\<forall>i \<in> set zs. arrival_time (ps ! i) \<le> t \<and> i \<notin> set dn \<and>
           (\<forall>q \<in> set qs. i \<notin> set q) \<and>
           list_index (length qs) (min (priority (ps ! i) div 4) 2) = Some k"
      unfolding admitted_to_def by (metis (no_types, lifting))
    have "arrival_time (ps ! i) \<le> t \<and> i \<notin> set dn \<and>
           (\<forall>j<3. i \<notin> set (qs ! j)) \<and> tier_slot (ws ! i) = Some k \<and> ps ! i = clone (ws ! i)"
      if i: "i \<in> set zs" for i
    proof -
      have il: "i < length ws" using zs(3) i len by auto
      have a: "arrival_time (ps ! i) \<le> t" "i \<notin> set dn" "\<forall>q \<in> set qs. i \<notin> set q"
        "list_index (length qs) (min (priority (ps ! i) div 4) 2) = Some k"
        using zs(4) i by blast+
      have nq: "\<forall>j<3. i \<notin> set (qs ! j)" using a(3) W(1) by (metis nth_mem)
      have "tier_slot (ps ! i) = Some k" using a(4) W(1) by (simp add: tier_slot_def)
      then have ts: "tier_slot (ws ! i) = Some k"
        using tier_slot_descr[OF descr_nth[OF I2 il]] by simp
      have "ps ! i = clone (ws ! i)" using I5 il nq a(2) by blast
      with a(1,2) nq ts show ?thesis by blast
    qed
    with zs(1,2,3) show ?thesis by blast
  qed
  have C3: "mlq_wf ps dn qs'"
    unfolding mlq_wf_def
  proof (intro conjI allI impI)
    show "length qs' = 3" by (rule len')
    show "set dn \<subseteq> {..<length ps}" "distinct dn" by (rule Wr)+
    fix k :: nat assume k: "k < 3"
    from ext[OF k] obtain zs where zs: "qs' ! k = qs ! k @ zs" "distinct zs" "set zs \<subseteq> {..<length ps}"
      "\<forall>i \<in> set zs. i \<notin> set dn \<and> (\<forall>j<3. i \<notin> set (qs ! j))" by blast
    show "set (qs' ! k) \<subseteq> {..<length ps}" using zs W(2) k by auto
    show "distinct (qs' ! k)" using zs W(2) k by auto
    show "set (qs' ! k) \<inter> set dn = {}" using zs W(2) k by auto
  next
    fix i assume "i < length ps"
    then show "completion_time (ps ! i) \<noteq> None \<longleftrightarrow> i \<in> set dn" using Wr(3) by blast
  qed
  have C4: "\<forall>k<3. \<forall>i \<in> set (qs' ! k). tier_slot (ws ! i) = Some k"
  proof (intro allI impI ballI)
    fix k i assume k: "k < (3::nat)" and i: "i \<in> set (qs' ! k)"
    from ext[OF k] obtain zs where zs: "qs' ! k = qs ! k @ zs"
      "\<forall>i \<in> set zs. tier_slot (ws ! i) = Some k" by blast
    show "tier_slot (ws ! i) = Some k" using zs i I4 k by auto
  qed
  have sub: "set (qs ! k) \<subseteq> set (qs' ! k)" if "k < 3" for k
    using ext[OF that] by auto
  have C5: "\<forall>i<length ws. (\<forall>k<3. i \<notin> set (qs' ! k)) \<and> i \<notin> set dn \<longrightarrow> ps ! i = clone (ws ! i)"
    using I5 sub by blast
  have C8: "\<forall>i \<in> set (qs' ! 0). remaining_time (ps ! i) = burst_time (ws ! i) \<and> arrival_time (ws ! i) \<le> t"
  proof
    fix i assume i: "i \<in> set (qs' ! 0)"
    from ext[of 0] obtain zs where zs: "qs' ! 0 = qs ! 0 @ zs"
      "\<forall>i \<in> set zs. arrival_time (ps ! i) \<le> t \<and> ps ! i = clone (ws ! i)" by auto
    show "remaining_time (ps ! i) = burst_time (ws ! i) \<and> arrival_time (ws ! i) \<le> t"
    proof (cases "i \<in> set (qs ! 0)")
      case True
      then show ?thesis using I8 by blast
    next
      case False
      then have "i \<in> set zs" using i zs(1) by simp
      then have "arrival_time (ps ! i) \<le> t" "ps ! i = clone (ws ! i)" using zs(2) by blast+
      then show ?thesis by (simp add: clone_def)
    qed
  qed
  have C9: "1 \<le> quantum \<longrightarrow> (\<forall>k<3. \<forall>i \<in> set (qs' ! k).
           arrival_time (ws ! i) + burst_time (ws ! i) - remaining_time (ps ! i) \<le> t)"
  proof (intro allI impI ballI)
    fix k i assume q: "1 \<le> quantum" and k: "k < (3::nat)" and i: "i \<in> set (qs' ! k)"
    from ext[OF k] obtain zs where zs: "qs' ! k = qs ! k @ zs"
      "\<forall>i \<in> set zs. arrival_time (ps ! i) \<le> t \<and> ps ! i = clone (ws ! i)" by blast
    show "arrival_time (ws ! i) + burst_time (ws ! i) - remaining_time (ps ! i) \<le> t"
    proof (cases "i \<in> set (qs ! k)")
      case True
      then show ?thesis using I9 q k by blast
    next
      case False
      then have "i \<in> set zs" using i zs(1) by simp
      then have "arrival_time (ps ! i) \<le> t" "ps ! i = clone (ws ! i)" using zs(2) by blast+
      then show ?thesis by (simp add: clone_def)
    qed
  qed
  have ne: "qs' ! k \<noteq> []" if "qs ! k \<noteq> []" "k < 3" for k
    using ext[OF that(2)] that(1) by auto
  have C10: "(0 \<le> t \<and> (\<forall>i<length ws. \<forall>c. completion_time (ps ! i) = Some c \<longrightarrow> 1 \<le> c)) \<or>
      (quantum < 1 \<and> (qs' ! 1 \<noteq> [] \<or> qs' ! 2 \<noteq> []))"
    using I10 ne[of 1] ne[of 2] by auto
  show ?thesis
    unfolding mlq_inv_def
    using I1 I2 C3 C4 C5 I6 I7 C8 C9 C10 by (simp add: defs)
qed

lemma mlq_inv_step:
  assumes b: "\<forall>p \<in> set ws. 1 \<le> burst_time p" and inv0: "mlq_inv quantum ws s"
    and st: "multilevel_queue_step quantum s = Inr s'"
  shows "mlq_inv quantum ws s'"
proof -
  define ps where "ps = processes s"
  define t where "t = current_time s"
  define dn where "dn = completed_processes s"
  note defs = ps_def t_def dn_def
  have step: "\<And>P. (\<And>qs'. mlq_admit ps t dn (queues s) = Inr qs' \<Longrightarrow> P) \<Longrightarrow> P"
    using st by (cases rule: multilevel_queue_step_cases[of s quantum]) (auto simp: defs)
  then obtain qs where adm: "mlq_admit ps t dn (queues s) = Inr qs" by blast
  have inv: "mlq_inv quantum ws (s\<lparr>queues := qs\<rparr>)"
    using mlq_inv_admit[OF inv0] adm unfolding defs by blast
  have I1: "original_processes s = ws"
    and I2: "map descr ps = map descr ws"
    and I3: "mlq_wf ps dn qs"
    and I4: "\<forall>k<3. \<forall>i \<in> set (qs ! k). tier_slot (ws ! i) = Some k"
    and I5: "\<forall>i<length ws. (\<forall>k<3. i \<notin> set (qs ! k)) \<and> i \<notin> set dn \<longrightarrow> ps ! i = clone (ws ! i)"
    and I6: "\<forall>i<length ws. completion_time (ps ! i) = None \<longrightarrow> 1 \<le> remaining_time (ps ! i)"
    and I7: "\<forall>i<length ws. \<forall>c. completion_time (ps ! i) = Some c
          \<longrightarrow> remaining_time (ps ! i) = 0 \<and> arrival_time (ws ! i) + burst_time (ws ! i) \<le> c"
    and I8: "\<forall>i \<in> set (qs ! 0). remaining_time (ps ! i) = burst_time (ws ! i) \<and> arrival_time (ws ! i) \<le> t"
    and I9: "1 \<le> quantum \<longrightarrow> (\<forall>k<3. \<forall>i \<in> set (qs ! k).
           arrival_time (ws ! i) + burst_time (ws ! i) - remaining_time (ps ! i) \<le> t)"
    and I10: "(0 \<le> t \<and> (\<forall>i<length ws. \<forall>c. completion_time (ps ! i) = Some c \<longrightarrow> 1 \<le> c)) \<or>
      (quantum < 1 \<and> (qs ! 1 \<noteq> [] \<or> qs ! 2 \<noteq> []))"
    using inv unfolding mlq_inv_def defs by simp_all
  have len: "length ps = length ws" using I2 by (rule map_eq_imp_length_eq)
  have W: "length qs = 3"
    "\<forall>k<3. set (qs ! k) \<subseteq> {..<length ps} \<and> distinct (qs ! k) \<and> set (qs ! k) \<inter> set dn = {}"
    using I3 unfolding mlq_wf_def by blast+
  have Wr: "set dn \<subseteq> {..<length ps}" "distinct dn"
    "\<forall>i<length ps. completion_time (ps ! i) \<noteq> None \<longleftrightarrow> i \<in> set dn"
    using I3 unfolding mlq_wf_def by blast+
  show ?thesis
  proof (cases rule: multilevel_queue_step_cases[of s quantum])
    case (error e)
    then show ?thesis using st by simp
  next
    case c: (idle qs')
    note idle = c[folded defs]
    have q: "qs' = qs" using idle(1) adm by simp
    have s': "s' = s\<lparr>current_time := t + 1, queues := qs\<rparr>" using idle(3) st q by simp
    have e: "qs ! k = []" if "k < 3" for k using idle(2) q W(1) that by (metis nth_mem)
    have e0: "qs ! 0 = []" "qs ! 1 = []" "qs ! 2 = []" using e by simp_all
    have G: "0 \<le> t \<and> (\<forall>i<length ws. \<forall>c. completion_time (ps ! i) = Some c \<longrightarrow> 1 \<le> c)"
      using I10 e0 by blast
    show ?thesis
      unfolding mlq_inv_def s'
      using I1 I2 I3 I4 I5 I6 I7 G e by (simp add: defs[symmetric])
  next
    case c: (complete qs' k i rest p e)
    note complete = c[folded defs]
    have q: "qs' = qs" using complete(1) adm by simp
    note complete = complete[unfolded q]
    have k: "k < 3" using complete(2) W(1) by simp
    have i_in: "i \<in> set (qs ! k)" using complete(4) by simp
    have dist: "distinct (i # rest)" using W(2) k complete(4) by metis
    have i_lt: "i < length ps" using i_in W(2) k by blast
    have i_nd: "i \<notin> set dn" using i_in W(2) k by blast
    have i_none: "completion_time (ps ! i) = None" using Wr(3) i_lt i_nd by blast
    have rem1: "1 \<le> remaining_time (ps ! i)" using I6 i_none i_lt len by simp
    have e: "e = remaining_time (ps ! i)" using complete(7) by simp
    have kq: "k \<noteq> 0 \<Longrightarrow> 1 \<le> quantum" using complete(6) e rem1 by (simp split: if_splits)
    have arr: "arrival_time (ws ! i) + burst_time (ws ! i) - remaining_time (ps ! i) \<le> t"
    proof (cases "k = 0")
      case True
      then show ?thesis using I8 i_in by simp
    next
      case False
      then show ?thesis using I9 kq k i_in by blast
    qed
    define p' where "p' = p\<lparr>remaining_time := 0, completion_time := Some (t + e)\<rparr>"
    have s': "s' = s\<lparr>processes := ps[i := p'], current_time := t + e,
              completed_processes := dn @ [i], queues := qs[k := rest]\<rparr>"
      using complete(8) st unfolding p'_def by simp
    note nth = nth_list_update[OF i_lt]
    have dp': "descr p' = descr (ps ! i)" by (simp add: p'_def complete(5) descr_def set_start_def)
    have qk: "qs[k := rest] ! j = (if j = k then rest else qs ! j)" if "j < 3" for j
      using that W(1) by (simp add: nth_list_update)
    have other: "i \<notin> set (qs ! j)" if "j < 3" "j \<noteq> k" for j
      using I4 that k i_in by (metis option.inject)
    have i_rest: "i \<notin> set rest" using dist by simp
    have rest_sub: "set rest \<subseteq> set (qs ! k)" using complete(4) by auto
    have nin: "i \<notin> set (qs[k := rest] ! j)" if "j < 3" for j
      using qk[OF that] other[OF that] i_rest by simp
    have qsub: "set (qs[k := rest] ! j) \<subseteq> set (qs ! j)" if "j < 3" for j
      using qk[OF that] rest_sub by auto
    have C2: "map descr (ps[i := p']) = map descr ws"
      using map_descr_update[OF dp'] I2 by simp
    have C3: "mlq_wf (ps[i := p']) (dn @ [i]) (qs[k := rest])"
      unfolding mlq_wf_def
    proof (intro conjI allI impI)
      show "length (qs[k := rest]) = 3" using W(1) by simp
      show "set (dn @ [i]) \<subseteq> {..<length (ps[i := p'])}" using Wr(1) i_lt by auto
      show "distinct (dn @ [i])" using Wr(2) i_nd by simp
    next
      fix j :: nat assume j: "j < 3"
      show "set (qs[k := rest] ! j) \<subseteq> {..<length (ps[i := p'])}"
        using qsub[OF j] W(2) j by auto
      show "distinct (qs[k := rest] ! j)" using qk[OF j] W(2) j dist by auto
      show "set (qs[k := rest] ! j) \<inter> set (dn @ [i]) = {}"
        using qsub[OF j] nin[OF j] W(2) j by auto
    next
      fix j assume "j < length (ps[i := p'])"
      then have j: "j < length ps" by simp
      show "completion_time (ps[i := p'] ! j) \<noteq> None \<longleftrightarrow> j \<in> set (dn @ [i])"
        using Wr(3) j by (auto simp: nth p'_def)
    qed
    have C4: "\<forall>j<3. \<forall>x \<in> set (qs[k := rest] ! j). tier_slot (ws ! x) = Some j"
      using I4 qsub by blast
    have C5: "\<forall>x<length ws. (\<forall>j<3. x \<notin> set (qs[k := rest] ! j)) \<and> x \<notin> set (dn @ [i])
                \<longrightarrow> ps[i := p'] ! x = clone (ws ! x)"
    proof (intro allI impI)
      fix x assume x: "x < length ws"
        and h: "(\<forall>j<3. x \<notin> set (qs[k := rest] ! j)) \<and> x \<notin> set (dn @ [i])"
      then have xi: "x \<noteq> i" "x \<notin> set dn" by auto
      have "x \<notin> set (qs ! j)" if "j < 3" for j
      proof (cases "j = k")
        case True
        then show ?thesis using h that qk[OF that] complete(4) xi by auto
      next
        case False
        then show ?thesis using h that qk[OF that] by auto
      qed
      then show "ps[i := p'] ! x = clone (ws ! x)" using I5 x xi by simp
    qed
    have C6: "\<forall>x<length ws. completion_time (ps[i := p'] ! x) = None
                \<longrightarrow> 1 \<le> remaining_time (ps[i := p'] ! x)"
      using I6 len by (auto simp: nth p'_def)
    have C7: "\<forall>x<length ws. \<forall>c. completion_time (ps[i := p'] ! x) = Some c
          \<longrightarrow> remaining_time (ps[i := p'] ! x) = 0 \<and>
              arrival_time (ws ! x) + burst_time (ws ! x) \<le> c"
    proof (intro allI impI)
      fix x c assume x: "x < length ws" and c: "completion_time (ps[i := p'] ! x) = Some c"
      show "remaining_time (ps[i := p'] ! x) = 0 \<and> arrival_time (ws ! x) + burst_time (ws ! x) \<le> c"
      proof (cases "x = i")
        case True
        then have "c = t + remaining_time (ps ! i)" using c x len e by (simp add: nth p'_def)
        then show ?thesis using arr True x len by (simp add: nth p'_def)
      next
        case False
        then show ?thesis using I7 x c len by (simp add: nth)
      qed
    qed
    have C8: "\<forall>x \<in> set (qs[k := rest] ! 0).
          remaining_time (ps[i := p'] ! x) = burst_time (ws ! x) \<and> arrival_time (ws ! x) \<le> t + e"
    proof
      fix x assume x: "x \<in> set (qs[k := rest] ! 0)"
      then have "x \<in> set (qs ! 0)" using qsub[of 0] by auto
      moreover have "x \<noteq> i" using x nin[of 0] by auto
      ultimately show "remaining_time (ps[i := p'] ! x) = burst_time (ws ! x) \<and>
          arrival_time (ws ! x) \<le> t + e"
        using I8 e rem1 by (simp add: nth) force
    qed
    have C9: "1 \<le> quantum \<longrightarrow> (\<forall>j<3. \<forall>x \<in> set (qs[k := rest] ! j).
           arrival_time (ws ! x) + burst_time (ws ! x) - remaining_time (ps[i := p'] ! x) \<le> t + e)"
    proof (intro allI impI ballI)
      fix j x assume q1: "1 \<le> quantum" and j: "j < (3::nat)" and x: "x \<in> set (qs[k := rest] ! j)"
      then have "x \<in> set (qs ! j)" using qsub[OF j] by auto
      moreover have "x \<noteq> i" using x nin[OF j] by auto
      ultimately show "arrival_time (ws ! x) + burst_time (ws ! x) - remaining_time (ps[i := p'] ! x) \<le> t + e"
        using I9 q1 j e rem1 by (simp add: nth) force
    qed
    have C10: "(0 \<le> t + e \<and> (\<forall>x<length ws. \<forall>c. completion_time (ps[i := p'] ! x) = Some c \<longrightarrow> 1 \<le> c)) \<or>
      (quantum < 1 \<and> (qs[k := rest] ! 1 \<noteq> [] \<or> qs[k := rest] ! 2 \<noteq> []))"
    proof (cases "0 \<le> t \<and> (\<forall>i<length ws. \<forall>c. completion_time (ps ! i) = Some c \<longrightarrow> 1 \<le> c)")
      case True
      have "\<forall>x<length ws. \<forall>c. completion_time (ps[i := p'] ! x) = Some c \<longrightarrow> 1 \<le> c"
      proof (intro allI impI)
        fix x c assume x: "x < length ws" and c: "completion_time (ps[i := p'] ! x) = Some c"
        show "1 \<le> c"
        proof (cases "x = i")
          case xi: True
          then have "c = t + e" using c x len by (simp add: nth p'_def)
          then show ?thesis using True e rem1 by simp
        next
          case False
          then show ?thesis using True x c by (simp add: nth)
        qed
      qed
      then show ?thesis using True e rem1 by simp
    next
      case False
      then have S: "quantum < 1" "qs ! 1 \<noteq> [] \<or> qs ! 2 \<noteq> []" using I10 by blast+
      then have "k = 0" using kq by fastforce
      then show ?thesis using S W(1) by simp
    qed
    show ?thesis
      unfolding mlq_inv_def s'
      using I1 C2 C3 C4 C5 C6 C7 C8 C9 C10 by simp
  next
    case c: (requeue qs' k i rest p e)
    note requeue = c[folded defs]
    have q: "qs' = qs" using requeue(1) adm by simp
    note requeue = requeue[unfolded q]
    have k: "k < 3" using requeue(2) W(1) by simp
    have k0: "k \<noteq> 0" using requeue(6,7) by (cases "k = 0") simp_all
    have q0: "qs ! 0 = []" using requeue(3) k0 by simp
    have i_in: "i \<in> set (qs ! k)" using requeue(4) by simp
    have dist: "distinct (i # rest)" using W(2) k requeue(4) by metis
    have i_lt: "i < length ps" using i_in W(2) k by blast
    have i_nd: "i \<notin> set dn" using i_in W(2) k by blast
    have i_none: "completion_time (ps ! i) = None" using Wr(3) i_lt i_nd by blast
    have rem1: "1 \<le> remaining_time (ps ! i)" using I6 i_none i_lt len by simp
    have e: "e = quantum" "quantum < remaining_time (ps ! i)"
      using requeue(6,7) k0 by (auto simp: min_def split: if_splits)
    define p' where "p' = p\<lparr>remaining_time := remaining_time (ps ! i) - e\<rparr>"
    have s': "s' = s\<lparr>processes := ps[i := p'], current_time := t + e,
              queues := qs[k := rest @ [i]]\<rparr>"
      using requeue(8) st unfolding p'_def by simp
    note nth = nth_list_update[OF i_lt]
    have dp': "descr p' = descr (ps ! i)" by (simp add: p'_def requeue(5) descr_def set_start_def)
    have cp': "completion_time p' = None" by (simp add: p'_def requeue(5) i_none)
    have rp': "remaining_time p' = remaining_time (ps ! i) - quantum" by (simp add: p'_def e)
    have qk: "qs[k := rest @ [i]] ! j = (if j = k then rest @ [i] else qs ! j)" if "j < 3" for j
      using that W(1) by (simp add: nth_list_update)
    have qset: "set (qs[k := rest @ [i]] ! j) = set (qs ! j)" if "j < 3" for j
      using qk[OF that] requeue(4) by auto
    have C2: "map descr (ps[i := p']) = map descr ws"
      using map_descr_update[OF dp'] I2 by simp
    have C3: "mlq_wf (ps[i := p']) dn (qs[k := rest @ [i]])"
      unfolding mlq_wf_def
    proof (intro conjI allI impI)
      show "length (qs[k := rest @ [i]]) = 3" using W(1) by simp
      show "set dn \<subseteq> {..<length (ps[i := p'])}" using Wr(1) by auto
      show "distinct dn" by (rule Wr(2))
    next
      fix j :: nat assume j: "j < 3"
      show "set (qs[k := rest @ [i]] ! j) \<subseteq> {..<length (ps[i := p'])}"
        using qset[OF j] W(2) j by auto
      show "distinct (qs[k := rest @ [i]] ! j)" using qk[OF j] W(2) j dist by auto
      show "set (qs[k := rest @ [i]] ! j) \<inter> set dn = {}"
        using qset[OF j] W(2) j by auto
    next
      fix j assume "j < length (ps[i := p'])"
      then have j: "j < length ps" by simp
      show "completion_time (ps[i := p'] ! j) \<noteq> None \<longleftrightarrow> j \<in> set dn"
        using Wr(3) j i_nd cp' by (auto simp: nth)
    qed
    have C4: "\<forall>j<3. \<forall>x \<in> set (qs[k := rest @ [i]] ! j). tier_slot (ws ! x) = Some j"
      using I4 qset by blast
    have C5: "\<forall>x<length ws. (\<forall>j<3. x \<notin> set (qs[k := rest @ [i]] ! j)) \<and> x \<notin> set dn
                \<longrightarrow> ps[i := p'] ! x = clone (ws ! x)"
    proof (intro allI impI)
      fix x assume x: "x < length ws"
        and h: "(\<forall>j<3. x \<notin> set (qs[k := rest @ [i]] ! j)) \<and> x \<notin> set dn"
      then have a: "\<forall>j<3. x \<notin> set (qs ! j)" using qset by blast
      then have "x \<noteq> i" using i_in k by blast
      then show "ps[i := p'] ! x = clone (ws ! x)" using I5 x a h by simp
    qed
    have C6: "\<forall>x<length ws. completion_time (ps[i := p'] ! x) = None
                \<longrightarrow> 1 \<le> remaining_time (ps[i := p'] ! x)"
      using I6 len e(2) rp' by (auto simp: nth)
    have C7: "\<forall>x<length ws. \<forall>c. completion_time (ps[i := p'] ! x) = Some c
          \<longrightarrow> remaining_time (ps[i := p'] ! x) = 0 \<and>
              arrival_time (ws ! x) + burst_time (ws ! x) \<le> c"
      using I7 len cp' by (auto simp: nth)
    have C8: "\<forall>x \<in> set (qs[k := rest @ [i]] ! 0).
          remaining_time (ps[i := p'] ! x) = burst_time (ws ! x) \<and> arrival_time (ws ! x) \<le> t + e"
      using qset[of 0] q0 by simp
    have C9: "1 \<le> quantum \<longrightarrow> (\<forall>j<3. \<forall>x \<in> set (qs[k := rest @ [i]] ! j).
           arrival_time (ws ! x) + burst_time (ws ! x) - remaining_time (ps[i := p'] ! x) \<le> t + e)"
    proof (intro allI impI ballI)
      fix j x assume q1: "1 \<le> quantum" and j: "j < (3::nat)" and x: "x \<in> set (qs[k := rest @ [i]] ! j)"
      then have xq: "x \<in> set (qs ! j)" using qset[OF j] by auto
      then have a: "arrival_time (ws ! x) + burst_time (ws ! x) - remaining_time (ps ! x) \<le> t"
        using I9 q1 j by blast
      show "arrival_time (ws ! x) + burst_time (ws ! x) - remaining_time (ps[i := p'] ! x) \<le> t + e"
        using a q1 e(1) rp' by (cases "x = i") (simp_all add: nth)
    qed
    have C10: "(0 \<le> t + e \<and> (\<forall>x<length ws. \<forall>c. completion_time (ps[i := p'] ! x) = Some c \<longrightarrow> 1 \<le> c)) \<or>
      (quantum < 1 \<and> (qs[k := rest @ [i]] ! 1 \<noteq> [] \<or> qs[k := rest @ [i]] ! 2 \<noteq> []))"
    proof (cases "1 \<le> quantum")
      case True
      then have G: "0 \<le> t" "\<forall>i<length ws. \<forall>c. completion_time (ps ! i) = Some c \<longrightarrow> 1 \<le> c"
        using I10 by auto
      have "\<forall>x<length ws. \<forall>c. completion_time (ps[i := p'] ! x) = Some c \<longrightarrow> 1 \<le> c"
        using G(2) cp' by (auto simp: nth)
      then show ?thesis using G(1) True e(1) by simp
    next
      case False
      have "k = 1 \<or> k = 2" using k k0 by auto
      then have "qs[k := rest @ [i]] ! 1 \<noteq> [] \<or> qs[k := rest @ [i]] ! 2 \<noteq> []"
        using W(1) by auto
      then show ?thesis using False by simp
    qed
    show ?thesis
      unfolding mlq_inv_def s'
      using I1 C2 C3 C4 C5 C6 C7 C8 C9 C10 by (simp add: dn_def[symmetric])
  qed
qed

subsection \<open>Termination of the Multilevel Queue loop\<close>

lemma mlq_wf_wf_run: "mlq_wf ps dn qs \<Longrightarrow> wf_run ps dn []"
  unfolding mlq_wf_def wf_run_def by simp

lemma mlq_inv_length: "mlq_inv q ws s \<Longrightarrow> length (processes s) = length ws"
proof -
  assume "mlq_inv q ws s"
  then have "map descr (processes s) = map descr ws" unfolding mlq_inv_def by blast
  then show ?thesis by (rule map_eq_imp_length_eq)
qed

lemma mlq_inv_wf: "mlq_inv q ws s \<Longrightarrow> mlq_wf (processes s) (completed_processes s) (queues s)"
  unfolding mlq_inv_def by blast

lemma mlq_inv_pending:
  "mlq_inv q ws s \<Longrightarrow> i < length ws \<Longrightarrow> completion_time (processes s ! i) = None
     \<Longrightarrow> 1 \<le> remaining_time (processes s ! i)"
  unfolding mlq_inv_def by blast

lemma mlq_inv_completed:
  "mlq_inv q ws s \<Longrightarrow> i < length ws \<Longrightarrow> completion_time (processes s ! i) = Some c
     \<Longrightarrow> remaining_time (processes s ! i) = 0 \<and>
         arrival_time (ws ! i) + burst_time (ws ! i) \<le> c"
  unfolding mlq_inv_def by blast

lemma mlq_inv_work_nonneg:
  assumes "mlq_inv q ws s"
  shows "0 \<le> work (processes s)"
proof (rule work_nonneg)
  fix i assume "i < length (processes s)"
  then have i: "i < length ws" using mlq_inv_length[OF assms] by simp
  show "0 \<le> remaining_time (processes s ! i)"
  proof (cases "completion_time (processes s ! i)")
    case None
    from mlq_inv_pending[OF assms i None] show ?thesis by simp
  next
    case (Some c)
    from mlq_inv_completed[OF assms i Some] show ?thesis by simp
  qed
qed

lemma tier_slot_None: "tier_slot p = None \<longleftrightarrow> priority p < - 12"
  unfolding tier_slot_def list_index_def by (auto simp: min_def)

lemma mlq_step_no_error:
  assumes inv: "mlq_inv q ws s" and ok: "tiers_ok ws"
  shows "\<exists>s'. multilevel_queue_step q s = Inr s'"
proof -
  have I2: "map descr (processes s) = map descr ws" using inv unfolding mlq_inv_def by blast
  have len: "length (processes s) = length ws" by (rule mlq_inv_length[OF inv])
  have l3: "length (queues s) = 3" using mlq_inv_wf[OF inv] unfolding mlq_wf_def by blast
  have "\<forall>i<length (processes s).
      list_index (length (queues s)) (min (priority (processes s ! i) div 4) 2) \<noteq> None"
  proof (intro allI impI)
    fix i assume i: "i < length (processes s)"
    then have "ws ! i \<in> set ws" using len by simp
    then have "tier_slot (ws ! i) \<noteq> None" using ok unfolding tiers_ok_def by blast
    moreover have "tier_slot (processes s ! i) = tier_slot (ws ! i)"
      using tier_slot_descr[OF descr_nth[OF I2]] i len by simp
    ultimately show "list_index (length (queues s)) (min (priority (processes s ! i) div 4) 2) \<noteq> None"
      unfolding l3 tier_slot_def by simp
  qed
  from mlq_admit_no_error[OF this] obtain qs' where
    "mlq_admit (processes s) (current_time s) (completed_processes s) (queues s) = Inr qs'"
    by blast
  then show ?thesis
    by (cases rule: multilevel_queue_step_cases[of s q]) auto
qed

lemma mlq_step_decreases:
  assumes b: "\<forall>p \<in> set ws. 1 \<le> burst_time p" and inv0: "mlq_inv quantum ws s"
    and q1: "1 \<le> quantum" and lc: "loop_cond s"
    and st: "multilevel_queue_step quantum s = Inr s'"
  shows "nat (work (processes s')) < nat (work (processes s)) \<or>
         (nat (work (processes s')) = nat (work (processes s)) \<and>
          idle_left ws (current_time s') < idle_left ws (current_time s))"
proof -
  define ps where "ps = processes s"
  define t where "t = current_time s"
  define dn where "dn = completed_processes s"
  note defs = ps_def t_def dn_def
  have step: "\<And>P. (\<And>qs'. mlq_admit ps t dn (queues s) = Inr qs' \<Longrightarrow> P) \<Longrightarrow> P"
    using st by (cases rule: multilevel_queue_step_cases[of s quantum]) (auto simp: defs)
  then obtain qs where adm: "mlq_admit ps t dn (queues s) = Inr qs" by blast
  have inv: "mlq_inv quantum ws (s\<lparr>queues := qs\<rparr>)"
    using mlq_inv_admit[OF inv0] adm unfolding defs by blast
  have I2: "map descr ps = map descr ws"
    and I3: "mlq_wf ps dn qs"
    and I6: "\<forall>i<length ws. completion_time (ps ! i) = None \<longrightarrow> 1 \<le> remaining_time (ps ! i)"
    using inv unfolding mlq_inv_def defs by simp_all
  have len: "length ps = length ws" using I2 by (rule map_eq_imp_length_eq)
  have W: "length qs = 3"
    "\<forall>k<3. set (qs ! k) \<subseteq> {..<length ps} \<and> distinct (qs ! k) \<and> set (qs ! k) \<inter> set dn = {}"
    using I3 unfolding mlq_wf_def by blast+
  have Wr: "\<forall>i<length ps. completion_time (ps ! i) \<noteq> None \<longleftrightarrow> i \<in> set dn"
    using I3 unfolding mlq_wf_def by blast
  have inv': "mlq_inv quantum ws s'" by (rule mlq_inv_step[OF b inv0 st])
  have w0: "0 \<le> work (processes s')" by (rule mlq_inv_work_nonneg[OF inv'])
  have head: "i < length ps \<and> 1 \<le> remaining_time (ps ! i)"
    if "k < length qs" "qs ! k = i # rest" for i rest k
  proof -
    have k: "k < 3" using that(1) W(1) by simp
    have i_in: "i \<in> set (qs ! k)" using that(2) by simp
    have i_lt: "i < length ps" using i_in W(2) k by blast
    have "i \<notin> set dn" using i_in W(2) k by blast
    then have "completion_time (ps ! i) = None" using Wr i_lt by blast
    then show ?thesis using I6 i_lt len by simp
  qed
  show ?thesis
  proof (cases rule: multilevel_queue_step_cases[of s quantum])
    case (error e)
    then show ?thesis using st by simp
  next
    case c: (idle qs')
    note idle = c[folded defs]
    have q: "qs' = qs" using idle(1) adm by simp
    have s': "s' = s\<lparr>current_time := t + 1, queues := qs\<rparr>" using idle(3) st q by simp
    from pending_exists[OF mlq_wf_wf_run[OF I3]] lc obtain j where j: "j < length ps" "j \<notin> set dn"
      unfolding loop_cond_def defs by blast
    have "\<not> obj_in ps j dn" using obj_in_done[OF mlq_wf_wf_run[OF I3] j(1)] j(2) by simp
    moreover have "\<not> (\<exists>q \<in> set qs. obj_in ps j q)" using idle(2) q obj_in_Nil by metis
    ultimately have "\<not> arrival_time (ps ! j) \<le> t"
      using mlq_admit_covers[OF adm j(1)] by blast
    then have a1: "t < arrival_time (ps ! j)" by simp
    have "descr (ps ! j) = descr (ws ! j)" using descr_nth[OF I2] j(1) len by simp
    then have a2: "arrival_time (ps ! j) = arrival_time (ws ! j)" by (simp add: descr_def)
    have "ws ! j \<in> set ws" using j(1) len by simp
    then have "arrival_time (ws ! j) \<in> insert 0 (arrival_time ` set ws)" by blast
    then have a3: "arrival_time (ws ! j) \<le> Max (insert 0 (arrival_time ` set ws))"
      by (intro Max_ge) simp_all
    define M where "M = Max (insert 0 (arrival_time ` set ws))"
    have "nat (M - (t + 1)) < nat (M - t)" using a1 a2 a3 unfolding M_def[symmetric] by linarith
    then have "idle_left ws (t + 1) < idle_left ws t"
      unfolding idle_left_def M_def .
    then show ?thesis unfolding s' by (simp add: defs)
  next
    case c: (complete qs' k i rest p e)
    note complete = c[folded defs]
    have q: "qs' = qs" using complete(1) adm by simp
    note complete = complete[unfolded q]
    from head[OF complete(2,4)] have i: "i < length ps" "1 \<le> remaining_time (ps ! i)" by auto
    have "processes s' = ps[i := p\<lparr>remaining_time := 0, completion_time := Some (t + e)\<rparr>]"
      using complete(8) st by auto
    then have "work (processes s') = work ps - remaining_time (ps ! i)"
      using work_update[OF i(1)] by simp
    then have "nat (work (processes s')) < nat (work ps)"
      using w0 i(2) by linarith
    then show ?thesis by (simp add: defs)
  next
    case c: (requeue qs' k i rest p e)
    note requeue = c[folded defs]
    have q: "qs' = qs" using requeue(1) adm by simp
    note requeue = requeue[unfolded q]
    from head[OF requeue(2,4)] have i: "i < length ps" "1 \<le> remaining_time (ps ! i)" by auto
    have k0: "k \<noteq> 0" using requeue(6,7) by (cases "k = 0") simp_all
    have e: "1 \<le> e" using requeue(6) k0 q1 i(2) by simp
    have "processes s' = ps[i := p\<lparr>remaining_time := remaining_time (ps ! i) - e\<rparr>]"
      using requeue(8) st by auto
    then have "work (processes s') = work ps - e"
      using work_update[OF i(1)] by simp
    then have "nat (work (processes s')) < nat (work ps)"
      using w0 e by linarith
    then show ?thesis by (simp add: defs)
  qed
qed

lemma multilevel_queue_run_terminates:
  assumes b: "\<forall>p \<in> set (original_processes self). 1 \<le> burst_time p" and q1: "1 \<le> quantum"
    and ok: "tiers_ok (original_processes self)"
  shows "\<exists>s. multilevel_queue_run quantum self = Some (None, s) \<and> \<not> loop_cond s \<and>
            mlq_inv quantum (original_processes self) s"
proof -
  define ws where "ws = original_processes self"
  define P where "P = (\<lambda>x :: error option \<times> mlq_state. fst x = None \<and> mlq_inv quantum ws (snd x))"
  define R where "R = measures [\<lambda>x :: error option \<times> mlq_state. nat (work (processes (snd x))),
                                 \<lambda>x. idle_left ws (current_time (snd x))]"
  have body: "P (mlq_body quantum x) \<and> (mlq_body quantum x, x) \<in> R" if "P x \<and> mlq_cond x" for x
  proof -
    have inv: "mlq_inv quantum ws (snd x)" and lc: "loop_cond (snd x)"
      using that unfolding P_def mlq_cond_def by blast+
    from mlq_step_no_error[OF inv] ok obtain s' where
      st: "multilevel_queue_step quantum (snd x) = Inr s'" unfolding ws_def by blast
    then have mb: "mlq_body quantum x = (None, s')" unfolding mlq_body_def by simp
    have "mlq_inv quantum ws s'" using mlq_inv_step[OF _ inv st] b unfolding ws_def by blast
    moreover have "(mlq_body quantum x, x) \<in> R"
      using mlq_step_decreases[OF _ inv q1 lc st] b unfolding ws_def[symmetric] mb R_def by auto
    ultimately show ?thesis unfolding P_def mb by simp
  qed
  have init: "P (None, start_mlq (reset_processes self))"
    unfolding P_def ws_def using mlq_inv_start[OF b] by simp
  have "wf R" unfolding R_def by simp
  then have "\<exists>y. while_option mlq_cond (mlq_body quantum) (None, start_mlq (reset_processes self)) = Some y"
    by (rule wf_rel_while_option_Some[where P = P]) (use body init in blast)+
  then obtain y where y: "multilevel_queue_run quantum self = Some y"
    unfolding multilevel_queue_run_def by blast
  have "P y"
    using y unfolding multilevel_queue_run_def
    by (rule while_option_rule[where P = P, rotated]) (use body init in blast)+
  moreover have "\<not> mlq_cond y" using y unfolding multilevel_queue_run_def by (rule while_option_stop)
  ultimately show ?thesis
    using y unfolding P_def mlq_cond_def ws_def by (cases y) auto
qed

subsection \<open>The result of a run\<close>

lemma run_policy_single:
  "single_queue pol = Some (ord, sl) \<Longrightarrow>
     run_policy pol self = map_option finish (policy_run ord sl self)"
  by (cases pol)
    (auto simp: single_queue_def run_policy_def policy_run_def
      fcfs_def fcfs_run_def fcfs_step_eq
      sjf_nonpreemptive_def sjf_nonpreemptive_run_def sjf_nonpreemptive_step_eq
      sjf_preemptive_def sjf_preemptive_run_def sjf_preemptive_step_eq
      round_robin_def round_robin_run_def round_robin_step_eq
      priority_nonpreemptive_def priority_nonpreemptive_run_def priority_nonpreemptive_step_eq
      priority_preemptive_def priority_preemptive_run_def priority_preemptive_step_eq)

lemma run_policy_mlq:
  "run_policy (MLQ quantum) self = multilevel_queue quantum self"
  by (simp add: run_policy_def)

lemma single_queue_None: "single_queue pol = None \<Longrightarrow> \<exists>quantum. pol = MLQ quantum"
  by (cases pol) (auto simp: single_queue_def)

lemma policy_run_inv:
  assumes "\<forall>p \<in> set (original_processes self). 1 \<le> burst_time p"
    and "policy_run ord sl self = Some s"
  shows "run_inv sl (original_processes self) s" "\<not> loop_cond s"
proof -
  show "run_inv sl (original_processes self) s"
    using assms(2) unfolding policy_run_def
    by (rule while_option_rule[where P = "run_inv sl (original_processes self)", rotated])
      (use run_inv_step[OF assms(1)] run_inv_start[OF assms(1)] in blast)+
  show "\<not> loop_cond s"
    using assms(2) unfolding policy_run_def by (rule while_option_stop)
qed

lemma multilevel_queue_run_inv:
  assumes b: "\<forall>p \<in> set (original_processes self). 1 \<le> burst_time p"
    and r: "multilevel_queue_run quantum self = Some x"
  shows "mlq_inv quantum (original_processes self) (snd x)" "\<not> mlq_cond x"
proof -
  have step: "mlq_inv quantum (original_processes self) (snd (mlq_body quantum y))"
    if "mlq_inv quantum (original_processes self) (snd y)" for y
  proof (cases "multilevel_queue_step quantum (snd y)")
    case (Inl e)
    then show ?thesis using that by (simp add: mlq_body_def)
  next
    case (Inr s')
    then show ?thesis using mlq_inv_step[OF b that Inr] by (simp add: mlq_body_def)
  qed
  show "mlq_inv quantum (original_processes self) (snd x)"
    using r unfolding multilevel_queue_run_def
    by (rule while_option_rule[where P = "\<lambda>y. mlq_inv quantum (original_processes self) (snd y)", rotated])
      (use step mlq_inv_start[OF b] in auto)
  show "\<not> mlq_cond x"
    using r unfolding multilevel_queue_run_def by (rule while_option_stop)
qed

text \<open>When the loop has ended, every record is completed.\<close>

lemma all_done:
  assumes "set dn \<subseteq> {..<n}" "distinct dn" "\<not> length dn < n" "i < n"
  shows "i \<in> set dn"
proof -
  have "card (set dn) = length dn" using assms(2) by (rule distinct_card)
  then have "card {..<n} \<le> card (set dn)" using assms(3) by simp
  moreover have "finite {..<n}" by simp
  ultimately have "set dn = {..<n}" using assms(1) by (metis card_seteq)
  then show ?thesis using assms(4) by simp
qed

lemma run_inv_all_completed:
  assumes "run_inv sl ws s" "\<not> loop_cond s" "i < length ws"
  shows "completion_time (processes s ! i) \<noteq> None"
proof -
  have len: "length (processes s) = length ws" by (rule run_inv_length[OF assms(1)])
  have W: "set (completed_processes s) \<subseteq> {..<length (processes s)}"
    "distinct (completed_processes s)"
    "\<forall>i<length (processes s). completion_time (processes s ! i) \<noteq> None
        \<longleftrightarrow> i \<in> set (completed_processes s)"
    using run_inv_wf[OF assms(1)] unfolding wf_run_def by blast+
  have "i \<in> set (completed_processes s)"
    using all_done[OF W(1,2)] assms(2,3) len unfolding loop_cond_def by simp
  then show ?thesis using W(3) assms(3) len by simp
qed

lemma mlq_inv_all_completed:
  assumes "mlq_inv q ws s" "\<not> loop_cond s" "i < length ws"
  shows "completion_time (processes s ! i) \<noteq> None"
proof -
  have len: "length (processes s) = length ws" by (rule mlq_inv_length[OF assms(1)])
  have W: "set (completed_processes s) \<subseteq> {..<length (processes s)}"
    "distinct (completed_processes s)"
    "\<forall>i<length (processes s). completion_time (processes s ! i) \<noteq> None
        \<longleftrightarrow> i \<in> set (completed_processes s)"
    using mlq_inv_wf[OF assms(1)] unfolding mlq_wf_def by blast+
  have "i \<in> set (completed_processes s)"
    using all_done[OF W(1,2)] assms(2,3) len unfolding loop_cond_def by simp
  then show ?thesis using W(3) assms(3) len by simp
qed

subsection \<open>Every policy run ends when its parameters allow progress\<close>

lemma fold_max_ge: "(a::int) \<le> fold max xs a"
  by (induction xs arbitrary: a) (auto intro: order_trans[OF max.cobounded2])

lemma get_metrics_errors:
  assumes "get_metrics self = Inl e"
  shows "e = ZeroDivisionError \<or> e = OverflowError"
proof -
  define completed where "completed = filter (\<lambda>p. completion_time p \<noteq> None) (processes self)"
  have ne: "completed \<noteq> []"
    using assms unfolding get_metrics_def completed_def[symmetric] Let_def
    by (auto split: if_splits)
  have m: "mean (map f completed) = Inl x \<Longrightarrow> x = OverflowError" for f x
    using mean_errors[of "map f completed" x] ne by simp
  show ?thesis
    using assms ne unfolding get_metrics_def completed_def[symmetric] Let_def
    by (auto split: if_splits sum.splits dest: m true_div_errors)
qed

lemma get_metrics_no_zero_division:
  assumes "\<forall>p \<in> set (processes self). \<forall>c. completion_time p = Some c \<longrightarrow> 1 \<le> c"
  shows "get_metrics self \<noteq> Inl ZeroDivisionError"
proof (cases "filter (\<lambda>p. completion_time p \<noteq> None) (processes self)")
  case Nil
  then show ?thesis by (simp add: get_metrics_def)
next
  case (Cons p ps)
  define completed where "completed = filter (\<lambda>p. completion_time p \<noteq> None) (processes self)"
  have ne: "completed \<noteq> []" using Cons by (simp add: completed_def)
  have "p \<in> set (filter (\<lambda>p. completion_time p \<noteq> None) (processes self))" using Cons by simp
  then have "p \<in> set (processes self)" "completion_time p \<noteq> None" by simp_all
  then obtain c where c: "completion_time p = Some c" "1 \<le> c" using assms by auto
  have "c \<le> fold max (map (\<lambda>p. the (completion_time p)) ps) c" by (rule fold_max_ge)
  then have "max_completion_time completed \<noteq> 0"
    using c Cons by (simp add: max_completion_time_def completed_def)
  then have d: "true_div a (max_completion_time completed) \<noteq> Inl ZeroDivisionError" for a
    by (rule true_div_not_zero_division)
  have m: "mean (map f completed) \<noteq> Inl ZeroDivisionError" for f
    using mean_errors[of "map f completed" ZeroDivisionError] ne by auto
  show ?thesis
    using ne m d unfolding get_metrics_def completed_def[symmetric] Let_def
    by (auto split: sum.splits)
qed

lemma Scheduler_init_original [simp]: "original_processes (Scheduler_init ws) = ws"
  by (simp add: Scheduler_init_def reset_processes_def)

lemma valid_bursts: "valid_descriptors ws \<Longrightarrow> \<forall>p \<in> set ws. 1 \<le> burst_time p"
  unfolding valid_descriptors_def by auto

lemma single_queue_progress:
  "single_queue pol = Some (ord, sl) \<Longrightarrow> policy_ok pol ws \<Longrightarrow> progress sl"
  by (cases pol) (auto simp: single_queue_def policy_ok_def progress_def)

lemma run_inv_final:
  assumes inv: "run_inv sl ws s" and lc: "\<not> loop_cond s"
  shows "length (processes (the_scheduler s)) = length ws"
    "\<forall>p \<in> set (processes (the_scheduler s)). completion_time p \<noteq> None"
    "\<forall>p \<in> set (processes (the_scheduler s)). \<forall>c. completion_time p = Some c \<longrightarrow> 1 \<le> c"
proof -
  have len: "length (processes s) = length ws" by (rule run_inv_length[OF inv])
  then show "length (processes (the_scheduler s)) = length ws" by (simp add: the_scheduler_def)
  show "\<forall>p \<in> set (processes (the_scheduler s)). completion_time p \<noteq> None"
  proof
    fix p assume "p \<in> set (processes (the_scheduler s))"
    then obtain i where "i < length ws" "p = processes s ! i"
      using len by (auto simp: the_scheduler_def in_set_conv_nth)
    then show "completion_time p \<noteq> None" using run_inv_all_completed[OF inv lc] by simp
  qed
  show "\<forall>p \<in> set (processes (the_scheduler s)). \<forall>c. completion_time p = Some c \<longrightarrow> 1 \<le> c"
  proof (intro ballI allI impI)
    fix p c assume "p \<in> set (processes (the_scheduler s))" and c: "completion_time p = Some c"
    then obtain i where "i < length ws" "p = processes s ! i"
      using len by (auto simp: the_scheduler_def in_set_conv_nth)
    then show "1 \<le> c" using run_inv_completed[OF inv] c by blast
  qed
qed

lemma mlq_inv_final:
  assumes inv: "mlq_inv q ws s" and lc: "\<not> loop_cond s"
  shows "length (processes (the_scheduler s)) = length ws"
    "\<forall>p \<in> set (processes (the_scheduler s)). completion_time p \<noteq> None"
    "\<forall>p \<in> set (processes (the_scheduler s)). \<forall>c. completion_time p = Some c \<longrightarrow> 1 \<le> c"
proof -
  have len: "length (processes s) = length ws" by (rule mlq_inv_length[OF inv])
  then show "length (processes (the_scheduler s)) = length ws" by (simp add: the_scheduler_def)
  have alldn: "i \<in> set (completed_processes s)" if "i < length ws" for i
  proof -
    have "completion_time (processes s ! i) \<noteq> None" using mlq_inv_all_completed[OF inv lc that] .
    then show ?thesis using mlq_inv_wf[OF inv] that len unfolding mlq_wf_def by simp
  qed
  show "\<forall>p \<in> set (processes (the_scheduler s)). completion_time p \<noteq> None"
  proof
    fix p assume "p \<in> set (processes (the_scheduler s))"
    then obtain i where "i < length ws" "p = processes s ! i"
      using len by (auto simp: the_scheduler_def in_set_conv_nth)
    then show "completion_time p \<noteq> None" using mlq_inv_all_completed[OF inv lc] by simp
  qed
  have empty: "queues s ! k = []" if k: "k < 3" for k
  proof (rule ccontr)
    assume "queues s ! k \<noteq> []"
    then obtain i where i: "i \<in> set (queues s ! k)" by (cases "queues s ! k") auto
    have W: "set (queues s ! k) \<subseteq> {..<length (processes s)}"
      "set (queues s ! k) \<inter> set (completed_processes s) = {}"
      using mlq_inv_wf[OF inv] k unfolding mlq_wf_def by blast+
    have "i < length ws" using i W(1) len by auto
    then have "i \<in> set (completed_processes s)" by (rule alldn)
    then show False using i W(2) by blast
  qed
  have G: "\<forall>i<length ws. \<forall>c. completion_time (processes s ! i) = Some c \<longrightarrow> 1 \<le> c"
    using inv empty[of 1] empty[of 2] unfolding mlq_inv_def by simp
  show "\<forall>p \<in> set (processes (the_scheduler s)). \<forall>c. completion_time p = Some c \<longrightarrow> 1 \<le> c"
  proof (intro ballI allI impI)
    fix p c assume "p \<in> set (processes (the_scheduler s))" and c: "completion_time p = Some c"
    then obtain i where "i < length ws" "p = processes s ! i"
      using len by (auto simp: the_scheduler_def in_set_conv_nth)
    then show "1 \<le> c" using G c by blast
  qed
qed

lemma tiers_ok_iff: "tiers_ok ws \<longleftrightarrow> (\<forall>p \<in> set ws. - 12 \<le> priority p)"
  unfolding tiers_ok_def tier_slot_None by auto

lemma policy_terminates_general:
  assumes b: "\<forall>p \<in> set ws. 1 \<le> burst_time p" and ok: "policy_ok pol ws"
  shows "\<exists>r sch. run_policy pol (Scheduler_init ws) = Some (r, sch) \<and> r \<noteq> Inl IndexError \<and>
           length (processes sch) = length ws \<and>
           (\<forall>p \<in> set (processes sch). completion_time p \<noteq> None)"
proof (cases "single_queue pol")
  case (Some a)
  obtain ord sl where a: "a = (ord, sl)" by (cases a)
  have sq: "single_queue pol = Some (ord, sl)" using Some a by simp
  have b': "\<forall>p \<in> set (original_processes (Scheduler_init ws)). 1 \<le> burst_time p" using b by simp
  from policy_run_terminates[OF b' single_queue_progress[OF sq ok]]
  obtain s where s: "policy_run ord sl (Scheduler_init ws) = Some s" by blast
  have inv: "run_inv sl ws s" and lc: "\<not> loop_cond s"
    using policy_run_inv[OF b' s] by simp_all
  have m: "get_metrics (the_scheduler s) \<noteq> Inl IndexError"
    using get_metrics_errors[of "the_scheduler s" IndexError] by auto
  have "run_policy pol (Scheduler_init ws) = Some (get_metrics (the_scheduler s), the_scheduler s)"
    using run_policy_single[OF sq] s by (simp add: finish_def)
  then show ?thesis using run_inv_final(1,2)[OF inv lc] m by blast
next
  case None
  then obtain quantum where pol: "pol = MLQ quantum" using single_queue_None by blast
  have q1: "1 \<le> quantum" and t: "tiers_ok (original_processes (Scheduler_init ws))"
    using ok unfolding pol policy_ok_def tiers_ok_iff by simp_all
  have b': "\<forall>p \<in> set (original_processes (Scheduler_init ws)). 1 \<le> burst_time p" using b by simp
  from multilevel_queue_run_terminates[OF b' q1 t]
  obtain s where s: "multilevel_queue_run quantum (Scheduler_init ws) = Some (None, s)"
    "\<not> loop_cond s" "mlq_inv quantum ws s" by auto
  have m: "get_metrics (the_scheduler s) \<noteq> Inl IndexError"
    using get_metrics_errors[of "the_scheduler s" IndexError] by auto
  have "run_policy pol (Scheduler_init ws) = Some (get_metrics (the_scheduler s), the_scheduler s)"
    unfolding pol run_policy_mlq multilevel_queue_def using s(1) by (simp add: finish_def)
  then show ?thesis using mlq_inv_final(1,2)[OF s(3,2)] m by blast
qed

subsection \<open>Termination (claim C2)\<close>

lemma while_option_None_inv:
  assumes "\<And>s. I s \<Longrightarrow> b s \<and> I (c s)" and "I s"
  shows "while_option b c s = None"
proof (rule ccontr)
  assume "while_option b c s \<noteq> None"
  then obtain t where t: "while_option b c s = Some t" by auto
  have "I t" using t by (rule while_option_rule[where P = I, rotated]) (use assms in blast)+
  moreover have "\<not> b t" using t by (rule while_option_stop)
  ultimately show False using assms(1) by blast
qed

lemma round_robin_quantum_0_diverges:
  "round_robin_run 0 (Scheduler_init [\<lparr>pid = 0, arrival_time = 0, burst_time = 1, priority = 0,
       remaining_time = 0, start_time = None, completion_time = None\<rparr>]) = None"
proof -
  define p where "p = \<lparr>pid = 0, arrival_time = 0, burst_time = 1, priority = 0,
       remaining_time = 1, start_time = None, completion_time = (None :: int option)\<rparr>"
  define orig where "orig = [\<lparr>pid = 0, arrival_time = 0, burst_time = 1, priority = 0,
       remaining_time = 0, start_time = None, completion_time = (None :: int option)\<rparr>]"
  define s0 :: run_state where "s0 = \<lparr>original_processes = orig, processes = [p],
       current_time = 0, completed_processes = [], ready_queue = []\<rparr>"
  define s1 :: run_state where "s1 = \<lparr>original_processes = orig, processes = [p\<lparr>start_time := Some 0\<rparr>],
       current_time = 0, completed_processes = [], ready_queue = [0]\<rparr>"
  have init: "start_run (reset_processes (Scheduler_init orig)) = s0"
    by (simp add: start_run_def reset_processes_def Scheduler_init_def clone_def s0_def p_def orig_def)
  have st0: "round_robin_step 0 s0 = s1"
    by (simp add: round_robin_step_def admit_def admit_one_def obj_in_def set_start_def Let_def
        s0_def s1_def p_def)
  have st1: "round_robin_step 0 s1 = s1"
    by (simp add: round_robin_step_def admit_def admit_one_def obj_in_def set_start_def Let_def
        s1_def p_def)
  have c0: "loop_cond s0" "loop_cond s1" by (simp_all add: loop_cond_def s0_def s1_def)
  have "while_option loop_cond (round_robin_step 0) s0 = None"
    by (rule while_option_None_inv[where I = "\<lambda>s. s = s0 \<or> s = s1"]) (use st0 st1 c0 in auto)
  then show ?thesis unfolding round_robin_run_def init orig_def[symmetric] .
qed

text \<open>
  Claim C2, as amended.  For a workload of valid descriptors, each of the seven policy
  methods terminates: its main loop ends after finitely many iterations with every record
  completed, provided that the quantum given to Round Robin or Multilevel Queue is at least 1
  and that, for Multilevel Queue, every priority is at least -12 (so that the tier index
  \<open>min(priority // 4, 2)\<close> is an index of the three queues and the loop is not left by an
  \<open>IndexError\<close>).
\<close>

theorem policy_terminates:
  assumes "valid_descriptors ws" and "policy_ok pol ws"
  shows "\<exists>r sch. run_policy pol (Scheduler_init ws) = Some (r, sch) \<and> r \<noteq> Inl IndexError \<and>
           length (processes sch) = length ws \<and>
           (\<forall>p \<in> set (processes sch). completion_time p \<noteq> None)"
  using policy_terminates_general[OF valid_bursts[OF assms(1)] assms(2)] .

theorem policy_terminates_witness:
  "valid_descriptors
     [\<lparr>pid = 0, arrival_time = 0, burst_time = 5, priority = 1, remaining_time = 0,
        start_time = None, completion_time = None\<rparr>,
      \<lparr>pid = 1, arrival_time = 1, burst_time = 3, priority = 2, remaining_time = 0,
        start_time = None, completion_time = None\<rparr>] \<and>
   policy_ok (MLQ 2)
     [\<lparr>pid = 0, arrival_time = 0, burst_time = 5, priority = 1, remaining_time = 0,
        start_time = None, completion_time = None\<rparr>,
      \<lparr>pid = 1, arrival_time = 1, burst_time = 3, priority = 2, remaining_time = 0,
        start_time = None, completion_time = None\<rparr>] \<and>
   (\<exists>r sch. run_policy (MLQ 2) (Scheduler_init
     [\<lparr>pid = 0, arrival_time = 0, burst_time = 5, priority = 1, remaining_time = 0,
        start_time = None, completion_time = None\<rparr>,
      \<lparr>pid = 1, arrival_time = 1, burst_time = 3, priority = 2, remaining_time = 0,
        start_time = None, completion_time = None\<rparr>]) = Some (r, sch) \<and> r \<noteq> Inl IndexError \<and>
      length (processes sch) = 2)"
proof -
  let ?ws = "[\<lparr>pid = 0, arrival_time = 0, burst_time = 5, priority = 1, remaining_time = 0,
        start_time = None, completion_time = None\<rparr>,
      \<lparr>pid = 1, arrival_time = 1, burst_time = 3, priority = 2, remaining_time = 0,
        start_time = None, completion_time = (None :: int option)\<rparr>]"
  have v: "valid_descriptors ?ws" by (simp add: valid_descriptors_def)
  have ok: "policy_ok (MLQ 2) ?ws" by (simp add: policy_ok_def)
  from policy_terminates[OF v ok] v ok show ?thesis by auto
qed

theorem policy_terminates_counterexample:
  "valid_descriptors [\<lparr>pid = 0, arrival_time = 0, burst_time = 1, priority = 0,
       remaining_time = 0, start_time = None, completion_time = None\<rparr>] \<and>
   run_policy (RR 0) (Scheduler_init [\<lparr>pid = 0, arrival_time = 0, burst_time = 1, priority = 0,
       remaining_time = 0, start_time = None, completion_time = None\<rparr>]) = None \<and>
   valid_descriptors [\<lparr>pid = 0, arrival_time = 0, burst_time = 1, priority = - 13,
       remaining_time = 0, start_time = None, completion_time = None\<rparr>] \<and>
   run_policy (MLQ 2) (Scheduler_init [\<lparr>pid = 0, arrival_time = 0, burst_time = 1, priority = - 13,
       remaining_time = 0, start_time = None, completion_time = None\<rparr>]) =
     Some (Inl IndexError,
       \<lparr>original_processes = [\<lparr>pid = 0, arrival_time = 0, burst_time = 1, priority = - 13,
           remaining_time = 0, start_time = None, completion_time = None\<rparr>],
        processes = [\<lparr>pid = 0, arrival_time = 0, burst_time = 1, priority = - 13,
           remaining_time = 1, start_time = None, completion_time = None\<rparr>]\<rparr>)"
proof (intro conjI)
  show "run_policy (RR 0) (Scheduler_init [\<lparr>pid = 0, arrival_time = 0, burst_time = 1, priority = 0,
       remaining_time = 0, start_time = None, completion_time = None\<rparr>]) = None"
    using round_robin_quantum_0_diverges by (simp add: run_policy_def round_robin_def)
  show "run_policy (MLQ 2) (Scheduler_init [\<lparr>pid = 0, arrival_time = 0, burst_time = 1, priority = - 13,
       remaining_time = 0, start_time = None, completion_time = None\<rparr>]) =
     Some (Inl IndexError,
       \<lparr>original_processes = [\<lparr>pid = 0, arrival_time = 0, burst_time = 1, priority = - 13,
           remaining_time = 0, start_time = None, completion_time = None\<rparr>],
        processes = [\<lparr>pid = 0, arrival_time = 0, burst_time = 1, priority = - 13,
           remaining_time = 1, start_time = None, completion_time = None\<rparr>]\<rparr>)"
    by (simp add: run_policy_def multilevel_queue_def multilevel_queue_run_def Scheduler_init_def
        reset_processes_def clone_def start_mlq_def while_option_unfold mlq_cond_def loop_cond_def
        mlq_body_def multilevel_queue_step_def mlq_admit_def mlq_admit_one_def obj_in_def
        list_index_def the_scheduler_def Let_def)
qed (simp_all add: valid_descriptors_def)

subsection \<open>The times of completed records (claim C4)\<close>

lemma mlq_fold_error:
  "fold (mlq_admit_one ps t dn) xs r = Inl e \<Longrightarrow> r = Inl e \<or> e = IndexError"
proof (induction xs arbitrary: r)
  case Nil
  then show ?case by simp
next
  case (Cons x xs)
  from Cons.IH[of "mlq_admit_one ps t dn x r"] Cons.prems
  have "mlq_admit_one ps t dn x r = Inl e \<or> e = IndexError" by simp
  then show ?case
    by (auto simp: mlq_admit_one_def Let_def split: sum.splits if_splits option.splits)
qed

lemma multilevel_queue_step_error:
  assumes "multilevel_queue_step quantum s = Inl e"
  shows "e = IndexError"
  using assms
proof (cases rule: multilevel_queue_step_cases[of s quantum])
  case (error e')
  then have "e' = e" using assms by simp
  then show ?thesis using error(1) mlq_fold_error unfolding mlq_admit_def by blast
qed simp_all

lemma multilevel_queue_run_error:
  assumes "multilevel_queue_run quantum self = Some (Some e, s)"
  shows "e = IndexError"
proof -
  have step: "fst (mlq_body quantum y) = None \<or> fst (mlq_body quantum y) = Some IndexError" for y
    using multilevel_queue_step_error[of quantum "snd y"]
    by (cases "multilevel_queue_step quantum (snd y)") (auto simp: mlq_body_def)
  have "fst (Some e, s) = None \<or> fst (Some e, s) = Some IndexError"
    using assms unfolding multilevel_queue_run_def
    by (rule while_option_rule[where P = "\<lambda>y. fst y = None \<or> fst y = Some IndexError", rotated])
      (use step in auto)
  then show ?thesis by simp
qed

lemma run_policy_cases [consumes 1, case_names single mlq_ok mlq_err]:
  assumes "run_policy pol self = Some (r, sch)"
  obtains
    (single) ord sl s where "single_queue pol = Some (ord, sl)"
      "policy_run ord sl self = Some s" "sch = the_scheduler s" "r = get_metrics sch"
  | (mlq_ok) quantum s where "pol = MLQ quantum"
      "multilevel_queue_run quantum self = Some (None, s)" "\<not> loop_cond s"
      "sch = the_scheduler s" "r = get_metrics sch"
  | (mlq_err) quantum s where "pol = MLQ quantum"
      "multilevel_queue_run quantum self = Some (Some IndexError, s)"
      "sch = the_scheduler s" "r = Inl IndexError"
proof (cases "single_queue pol")
  case (Some a)
  obtain ord sl where a: "a = (ord, sl)" by (cases a)
  have sq: "single_queue pol = Some (ord, sl)" using Some a by simp
  have "map_option finish (policy_run ord sl self) = Some (r, sch)"
    using run_policy_single[OF sq, of self] assms by simp
  then obtain s where "policy_run ord sl self = Some s" "finish s = (r, sch)"
    by (cases "policy_run ord sl self") auto
  then show ?thesis using sq by (intro single[of ord sl s]) (auto simp: finish_def)
next
  case None
  then obtain quantum where pol: "pol = MLQ quantum" using single_queue_None by blast
  have "map_option (\<lambda>x. case fst x of Some e \<Rightarrow> (Inl e, the_scheduler (snd x))
                          | None \<Rightarrow> finish (snd x))
          (multilevel_queue_run quantum self) = Some (r, sch)"
    using assms unfolding pol run_policy_mlq multilevel_queue_def by simp
  then obtain x where x: "multilevel_queue_run quantum self = Some x"
    "(case fst x of Some e \<Rightarrow> (Inl e, the_scheduler (snd x)) | None \<Rightarrow> finish (snd x)) = (r, sch)"
    by (cases "multilevel_queue_run quantum self") auto
  obtain eo s where xs: "x = (eo, s)" by (cases x)
  show ?thesis
  proof (cases eo)
    case None
    have "\<not> mlq_cond x" using x(1) unfolding multilevel_queue_run_def by (rule while_option_stop)
    then have "\<not> loop_cond s" using None xs by (simp add: mlq_cond_def)
    then show ?thesis using x None xs pol by (intro mlq_ok[of quantum s]) (auto simp: finish_def)
  next
    case (Some e)
    then have "e = IndexError" using multilevel_queue_run_error x(1) xs by blast
    then show ?thesis using x Some xs pol by (intro mlq_err[of quantum s]) auto
  qed
qed

lemma descr_arrival_burst:
  "descr p = descr q \<Longrightarrow> arrival_time p = arrival_time q \<and> burst_time p = burst_time q"
  by (simp add: descr_def)

lemma run_inv_timing:
  assumes inv: "run_inv sl ws s" and p: "p \<in> set (processes s)" and c: "completion_time p = Some c"
  shows "remaining_time p = 0 \<and> arrival_time p + burst_time p \<le> c"
proof -
  have len: "length (processes s) = length ws" by (rule run_inv_length[OF inv])
  from p obtain i where i: "i < length ws" "p = processes s ! i"
    using len by (auto simp: in_set_conv_nth)
  have "map descr (processes s) = map descr ws" using inv unfolding run_inv_def by blast
  then have "descr p = descr (ws ! i)" using descr_nth i by blast
  then have "arrival_time p = arrival_time (ws ! i)" "burst_time p = burst_time (ws ! i)"
    using descr_arrival_burst by blast+
  then show ?thesis using run_inv_completed[OF inv i(1)] c i(2) by simp
qed

lemma mlq_inv_timing:
  assumes inv: "mlq_inv q ws s" and p: "p \<in> set (processes s)" and c: "completion_time p = Some c"
  shows "remaining_time p = 0 \<and> arrival_time p + burst_time p \<le> c"
proof -
  have len: "length (processes s) = length ws" by (rule mlq_inv_length[OF inv])
  from p obtain i where i: "i < length ws" "p = processes s ! i"
    using len by (auto simp: in_set_conv_nth)
  have "map descr (processes s) = map descr ws" using inv unfolding mlq_inv_def by blast
  then have "descr p = descr (ws ! i)" using descr_nth i by blast
  then have "arrival_time p = arrival_time (ws ! i)" "burst_time p = burst_time (ws ! i)"
    using descr_arrival_burst by blast+
  then show ?thesis using mlq_inv_completed[OF inv i(1)] c i(2) by simp
qed

lemma result_timing:
  assumes b: "\<forall>p \<in> set ws. 1 \<le> burst_time p"
    and r: "run_policy pol (Scheduler_init ws) = Some (r, sch)"
    and p: "p \<in> set (processes sch)" and c: "completion_time p = Some c"
  shows "remaining_time p = 0 \<and> arrival_time p + burst_time p \<le> c \<and> 1 \<le> burst_time p"
proof -
  have b': "\<forall>p \<in> set (original_processes (Scheduler_init ws)). 1 \<le> burst_time p" using b by simp
  have bp: "1 \<le> burst_time p" if inv: "map descr (processes sch) = map descr ws"
  proof -
    have len: "length (processes sch) = length ws" using inv by (rule map_eq_imp_length_eq)
    from p obtain i where i: "i < length ws" "p = processes sch ! i"
      using len by (auto simp: in_set_conv_nth)
    then have "descr p = descr (ws ! i)" using descr_nth[OF inv] by blast
    then have "burst_time p = burst_time (ws ! i)" using descr_arrival_burst by blast
    then show ?thesis using b i(1) by simp
  qed
  from r show ?thesis
  proof (cases rule: run_policy_cases)
    case (single ord sl s)
    have inv: "run_inv sl ws s" using policy_run_inv(1)[OF b' single(2)] by simp
    have "map descr (processes sch) = map descr ws"
      using inv unfolding run_inv_def single(3) the_scheduler_def by simp
    then show ?thesis
      using run_inv_timing[OF inv, of p c] p c bp unfolding single(3) the_scheduler_def by simp
  next
    case (mlq_ok quantum s)
    have inv: "mlq_inv quantum ws s" using multilevel_queue_run_inv(1)[OF b' mlq_ok(2)] by simp
    have "map descr (processes sch) = map descr ws"
      using inv unfolding mlq_inv_def mlq_ok(4) the_scheduler_def by simp
    then show ?thesis
      using mlq_inv_timing[OF inv, of p c] p c bp unfolding mlq_ok(4) the_scheduler_def by simp
  next
    case (mlq_err quantum s)
    have inv: "mlq_inv quantum ws s" using multilevel_queue_run_inv(1)[OF b' mlq_err(2)] by simp
    have "map descr (processes sch) = map descr ws"
      using inv unfolding mlq_inv_def mlq_err(3) the_scheduler_def by simp
    then show ?thesis
      using mlq_inv_timing[OF inv, of p c] p c bp unfolding mlq_err(3) the_scheduler_def by simp
  qed
qed

text \<open>
  Claim C4.  Whatever policy is run on a workload of valid descriptors, every record that
  the run leaves completed has \<open>completion_time \<ge> arrival_time\<close>, \<open>remaining_time = 0\<close> and
  \<open>waiting_time = (completion_time - arrival_time) - burst_time \<ge> 0\<close>, that is,
  \<open>turnaround_time \<ge> burst_time\<close>.
\<close>

theorem completed_record_times:
  assumes "valid_descriptors ws" and "run_policy pol (Scheduler_init ws) = Some (r, sch)"
    and "p \<in> set (processes sch)" and "completion_time p = Some c"
  shows "arrival_time p \<le> c \<and> remaining_time p = 0 \<and>
         turnaround_time p = Some (c - arrival_time p) \<and>
         waiting_time p = Some ((c - arrival_time p) - burst_time p) \<and>
         0 \<le> (c - arrival_time p) - burst_time p \<and>
         burst_time p \<le> c - arrival_time p"
  using result_timing[OF valid_bursts[OF assms(1)] assms(2,3,4)] assms(4)
  by (simp add: turnaround_time_def waiting_time_def)

subsection \<open>Evaluated runs, and the divisor of the metrics (claim C10)\<close>

lemmas run_eval =
  run_policy_def fcfs_def fcfs_run_def fcfs_step_def
  round_robin_def round_robin_run_def round_robin_step_def
  Scheduler_init_def reset_processes_def clone_def start_run_def
  while_option_unfold loop_cond_def admit_def admit_one_def obj_in_def set_start_def Let_def
  upt_rec finish_def get_metrics_def max_completion_time_def the_scheduler_def turnaround_time_def waiting_time_def
  mean_def

lemma round_robin_example:
  "run_policy (RR 2) (Scheduler_init
     [\<lparr>pid = 0, arrival_time = 0, burst_time = 5, priority = 1, remaining_time = 0,
        start_time = None, completion_time = None\<rparr>,
      \<lparr>pid = 1, arrival_time = 1, burst_time = 3, priority = 2, remaining_time = 0,
        start_time = None, completion_time = None\<rparr>]) =
   Some (Inr \<lparr>avg_turnaround_time = 7, avg_waiting_time = 3, throughput = 1 / 4,
               cpu_utilization = Finite 100\<rparr>,
     \<lparr>original_processes =
        [\<lparr>pid = 0, arrival_time = 0, burst_time = 5, priority = 1, remaining_time = 0,
           start_time = None, completion_time = None\<rparr>,
         \<lparr>pid = 1, arrival_time = 1, burst_time = 3, priority = 2, remaining_time = 0,
           start_time = None, completion_time = None\<rparr>],
      processes =
        [\<lparr>pid = 0, arrival_time = 0, burst_time = 5, priority = 1, remaining_time = 0,
           start_time = Some 0, completion_time = Some 7\<rparr>,
         \<lparr>pid = 1, arrival_time = 1, burst_time = 3, priority = 2, remaining_time = 0,
           start_time = Some 4, completion_time = Some 8\<rparr>]\<rparr>)"
  by (simp add: run_eval)

text \<open>
  Valid descriptors do not ensure that \<open>get_metrics\<close> returns: the turnaround times
  \<open>2 ^ 1024\<close> and \<open>2 ^ 1024 + 1\<close> have a mean that is no integer and is too large for a float.
\<close>

lemma fcfs_overflow_example:
  "run_policy FCFS (Scheduler_init
     [\<lparr>pid = 0, arrival_time = 0, burst_time = 2 ^ 1024, priority = 0, remaining_time = 0,
        start_time = None, completion_time = None\<rparr>,
      \<lparr>pid = 1, arrival_time = 0, burst_time = 1, priority = 0, remaining_time = 0,
        start_time = None, completion_time = None\<rparr>]) =
   Some (Inl OverflowError,
     \<lparr>original_processes =
        [\<lparr>pid = 0, arrival_time = 0, burst_time = 2 ^ 1024, priority = 0, remaining_time = 0,
           start_time = None, completion_time = None\<rparr>,
         \<lparr>pid = 1, arrival_time = 0, burst_time = 1, priority = 0, remaining_time = 0,
           start_time = None, completion_time = None\<rparr>],
      processes =
        [\<lparr>pid = 0, arrival_time = 0, burst_time = 2 ^ 1024, priority = 0, remaining_time = 0,
           start_time = Some 0, completion_time = Some (2 ^ 1024)\<rparr>,
         \<lparr>pid = 1, arrival_time = 0, burst_time = 1, priority = 0, remaining_time = 0,
           start_time = Some (2 ^ 1024), completion_time = Some (2 ^ 1024 + 1)\<rparr>]\<rparr>)"
  by (simp add: run_eval true_div_def overflows_def)

theorem completed_record_times_witness:
  "valid_descriptors
     [\<lparr>pid = 0, arrival_time = 0, burst_time = 5, priority = 1, remaining_time = 0,
        start_time = None, completion_time = None\<rparr>,
      \<lparr>pid = 1, arrival_time = 1, burst_time = 3, priority = 2, remaining_time = 0,
        start_time = None, completion_time = None\<rparr>] \<and>
   turnaround_time \<lparr>pid = 1, arrival_time = 1, burst_time = 3, priority = 2, remaining_time = 0,
        start_time = Some 4, completion_time = Some 8\<rparr> = Some 7 \<and>
   waiting_time \<lparr>pid = 1, arrival_time = 1, burst_time = 3, priority = 2, remaining_time = 0,
        start_time = Some 4, completion_time = Some 8\<rparr> = Some 4"
proof -
  let ?ws = "[\<lparr>pid = 0, arrival_time = 0, burst_time = 5, priority = 1, remaining_time = 0,
        start_time = None, completion_time = None\<rparr>,
      \<lparr>pid = 1, arrival_time = 1, burst_time = 3, priority = 2, remaining_time = 0,
        start_time = None, completion_time = (None :: int option)\<rparr>]"
  let ?p = "\<lparr>pid = 1, arrival_time = 1, burst_time = 3, priority = 2, remaining_time = 0,
        start_time = Some 4, completion_time = Some (8 :: int)\<rparr>"
  have v: "valid_descriptors ?ws" by (simp add: valid_descriptors_def)
  from completed_record_times[OF v round_robin_example, of ?p 8] v
  show ?thesis by simp
qed

lemma max_completion_time_positive:
  assumes "\<forall>p \<in> set ps. \<forall>c. completion_time p = Some c \<longrightarrow> 1 \<le> c"
    and "filter (\<lambda>p. completion_time p \<noteq> None) ps \<noteq> []"
  shows "0 < max_completion_time (filter (\<lambda>p. completion_time p \<noteq> None) ps)"
proof -
  obtain p qs where pq: "filter (\<lambda>p. completion_time p \<noteq> None) ps = p # qs"
    using assms(2) by (cases "filter (\<lambda>p. completion_time p \<noteq> None) ps") auto
  then have "p \<in> set (filter (\<lambda>p. completion_time p \<noteq> None) ps)" by simp
  then have "p \<in> set ps" "completion_time p \<noteq> None" by simp_all
  then obtain c where c: "completion_time p = Some c" "1 \<le> c" using assms(1) by auto
  have "c \<le> fold max (map (\<lambda>p. the (completion_time p)) qs) c" by (rule fold_max_ge)
  then show ?thesis using pq c by (simp add: max_completion_time_def)
qed

text \<open>
  Claim C10.  When every descriptor has \<open>burst_time \<ge> 1\<close>, no policy run ends in a division by
  zero.  If the loop of the run ended (the only other outcome is the \<open>IndexError\<close> of
  Multilevel Queue, which leaves before \<open>get_metrics\<close> is called), then every completed
  record has a positive \<open>completion_time\<close>; so, when at least one record is completed, the
  divisor \<open>max_completion_time\<close> of \<open>get_metrics\<close> is positive.
\<close>

theorem metrics_division_defined:
  assumes "\<forall>p \<in> set ws. 1 \<le> burst_time p"
    and "run_policy pol (Scheduler_init ws) = Some (r, sch)"
  shows "r \<noteq> Inl ZeroDivisionError \<and>
         (r \<noteq> Inl IndexError \<longrightarrow>
            (\<forall>p \<in> set (processes sch). \<forall>c. completion_time p = Some c \<longrightarrow> 0 < c) \<and>
            (filter (\<lambda>p. completion_time p \<noteq> None) (processes sch) \<noteq> [] \<longrightarrow>
               0 < max_completion_time (filter (\<lambda>p. completion_time p \<noteq> None) (processes sch))))"
proof -
  have b': "\<forall>p \<in> set (original_processes (Scheduler_init ws)). 1 \<le> burst_time p"
    using assms(1) by simp
  have fin: ?thesis
    if pos: "\<forall>p \<in> set (processes sch). \<forall>c. completion_time p = Some c \<longrightarrow> 1 \<le> c"
      and r: "r = get_metrics sch"
  proof -
    have m: "r \<noteq> Inl ZeroDivisionError" using get_metrics_no_zero_division[OF pos] r by simp
    have "\<forall>p \<in> set (processes sch). \<forall>c. completion_time p = Some c \<longrightarrow> 0 < c"
      using pos by fastforce
    then show ?thesis using m max_completion_time_positive[OF pos] by simp
  qed
  from assms(2) show ?thesis
  proof (cases rule: run_policy_cases)
    case (single ord sl s)
    have "run_inv sl ws s" "\<not> loop_cond s" using policy_run_inv[OF b' single(2)] by simp_all
    from run_inv_final(3)[OF this] show ?thesis using fin single(3,4) by simp
  next
    case (mlq_ok quantum s)
    have "mlq_inv quantum ws s" using multilevel_queue_run_inv(1)[OF b' mlq_ok(2)] by simp
    from mlq_inv_final(3)[OF this mlq_ok(3)] show ?thesis using fin mlq_ok(4,5) by simp
  next
    case (mlq_err quantum s)
    then show ?thesis by simp
  qed
qed

theorem metrics_division_defined_witness:
  "max_completion_time (filter (\<lambda>p. completion_time p \<noteq> None)
     [\<lparr>pid = 0, arrival_time = 0, burst_time = 5, priority = 1, remaining_time = 0,
         start_time = Some 0, completion_time = Some 7\<rparr>,
      \<lparr>pid = 1, arrival_time = 1, burst_time = 3, priority = 2, remaining_time = 0,
         start_time = Some 4, completion_time = Some 8\<rparr>]) = 8 \<and>
   0 < max_completion_time (filter (\<lambda>p. completion_time p \<noteq> None)
     [\<lparr>pid = 0, arrival_time = 0, burst_time = 5, priority = 1, remaining_time = 0,
         start_time = Some 0, completion_time = Some 7\<rparr>,
      \<lparr>pid = 1, arrival_time = 1, burst_time = 3, priority = 2, remaining_time = 0,
         start_time = Some 4, completion_time = Some 8\<rparr>])"
proof -
  let ?ws = "[\<lparr>pid = 0, arrival_time = 0, burst_time = 5, priority = 1, remaining_time = 0,
        start_time = None, completion_time = None\<rparr>,
      \<lparr>pid = 1, arrival_time = 1, burst_time = 3, priority = 2, remaining_time = 0,
        start_time = None, completion_time = (None :: int option)\<rparr>]"
  have b: "\<forall>p \<in> set ?ws. 1 \<le> burst_time p" by simp
  from metrics_division_defined[OF b round_robin_example]
  show ?thesis by (simp add: max_completion_time_def)
qed

subsection \<open>A run does not depend on earlier runs (claim C9)\<close>

lemma start_run_reset:
  "start_run (reset_processes self) =
     \<lparr>original_processes = original_processes self,
      processes = map clone (original_processes self),
      current_time = 0, completed_processes = [], ready_queue = []\<rparr>"
  by (simp add: start_run_def reset_processes_def)

lemma start_mlq_reset:
  "start_mlq (reset_processes self) =
     \<lparr>original_processes = original_processes self,
      processes = map clone (original_processes self),
      current_time = 0, completed_processes = [], queues = [[], [], []]\<rparr>"
  by (simp add: start_mlq_def reset_processes_def)

lemma run_policy_original:
  assumes "original_processes self' = original_processes self"
  shows "run_policy pol self' = run_policy pol self"
  by (cases pol)
    (simp_all add: run_policy_def assms start_run_reset start_mlq_reset
      fcfs_def fcfs_run_def sjf_nonpreemptive_def sjf_nonpreemptive_run_def
      sjf_preemptive_def sjf_preemptive_run_def round_robin_def round_robin_run_def
      priority_nonpreemptive_def priority_nonpreemptive_run_def
      priority_preemptive_def priority_preemptive_run_def
      multilevel_queue_def multilevel_queue_run_def)

lemma policy_step_original: "original_processes (policy_step ord sl s) = original_processes s"
  by (cases rule: policy_step_cases[of s ord sl]) simp_all

lemma policy_run_original:
  assumes "policy_run ord sl self = Some s"
  shows "original_processes s = original_processes self"
  using assms unfolding policy_run_def
  by (rule while_option_rule[where P = "\<lambda>s. original_processes s = original_processes self", rotated])
    (simp_all add: policy_step_original start_run_reset)

lemma multilevel_queue_step_original:
  "multilevel_queue_step quantum s = Inr s' \<Longrightarrow> original_processes s' = original_processes s"
  by (cases rule: multilevel_queue_step_cases[of s quantum]) auto

lemma multilevel_queue_run_original:
  assumes "multilevel_queue_run quantum self = Some x"
  shows "original_processes (snd x) = original_processes self"
proof -
  have step: "original_processes (snd (mlq_body quantum y)) = original_processes (snd y)" for y
    using multilevel_queue_step_original[of quantum "snd y"]
    by (cases "multilevel_queue_step quantum (snd y)") (auto simp: mlq_body_def)
  show ?thesis
    using assms unfolding multilevel_queue_run_def
    by (rule while_option_rule[where P = "\<lambda>y. original_processes (snd y) = original_processes self", rotated])
      (simp_all add: step start_mlq_reset)
qed

lemma run_policy_keeps_original:
  assumes "run_policy pol self = Some (r, sch)"
  shows "original_processes sch = original_processes self"
  using assms
proof (cases rule: run_policy_cases)
  case (single ord sl s)
  then show ?thesis using policy_run_original by (simp add: the_scheduler_def)
next
  case (mlq_ok quantum s)
  then show ?thesis using multilevel_queue_run_original[of quantum self "(None, s)"]
    by (simp add: the_scheduler_def)
next
  case (mlq_err quantum s)
  then show ?thesis using multilevel_queue_run_original[of quantum self "(Some IndexError, s)"]
    by (simp add: the_scheduler_def)
qed

text \<open>
  Claim C9.  A policy method starts with \<open>reset_processes\<close>, which rebuilds the records from
  \<open>original_processes\<close>, and no run writes \<open>original_processes\<close>.  So on the Scheduler that
  a run of any policy has left, a run of a policy returns what it returns on the Scheduler
  before that run; in particular the same policy run twice in a row ends with the same
  result (the same metrics, or the same exception) and leaves the same records both times.
\<close>

theorem run_policy_repeatable:
  assumes "run_policy pol self = Some (r, sch)"
  shows "run_policy pol sch = Some (r, sch) \<and> run_policy pol' sch = run_policy pol' self"
  using run_policy_original[OF run_policy_keeps_original[OF assms]] assms by simp

theorem run_policy_repeatable_witness:
  "run_policy (RR 2)
     \<lparr>original_processes =
        [\<lparr>pid = 0, arrival_time = 0, burst_time = 5, priority = 1, remaining_time = 0,
           start_time = None, completion_time = None\<rparr>,
         \<lparr>pid = 1, arrival_time = 1, burst_time = 3, priority = 2, remaining_time = 0,
           start_time = None, completion_time = None\<rparr>],
      processes =
        [\<lparr>pid = 0, arrival_time = 0, burst_time = 5, priority = 1, remaining_time = 0,
           start_time = Some 0, completion_time = Some 7\<rparr>,
         \<lparr>pid = 1, arrival_time = 1, burst_time = 3, priority = 2, remaining_time = 0,
           start_time = Some 4, completion_time = Some 8\<rparr>]\<rparr> =
   Some (Inr \<lparr>avg_turnaround_time = 7, avg_waiting_time = 3, throughput = 1 / 4,
               cpu_utilization = Finite 100\<rparr>,
     \<lparr>original_processes =
        [\<lparr>pid = 0, arrival_time = 0, burst_time = 5, priority = 1, remaining_time = 0,
           start_time = None, completion_time = None\<rparr>,
         \<lparr>pid = 1, arrival_time = 1, burst_time = 3, priority = 2, remaining_time = 0,
           start_time = None, completion_time = None\<rparr>],
      processes =
        [\<lparr>pid = 0, arrival_time = 0, burst_time = 5, priority = 1, remaining_time = 0,
           start_time = Some 0, completion_time = Some 7\<rparr>,
         \<lparr>pid = 1, arrival_time = 1, burst_time = 3, priority = 2, remaining_time = 0,
           start_time = Some 4, completion_time = Some 8\<rparr>]\<rparr>)"
  using run_policy_repeatable[OF round_robin_example, of FCFS] by blast

subsection \<open>Round Robin with a large quantum (claim C5)\<close>

lemma run_inv_head:
  assumes inv: "run_inv sl ws s"
    and oq: "order_queue ord (processes s)
               (admit (processes s) (current_time s) (completed_processes s) (ready_queue s)) = i # rest"
  shows "i < length (processes s)" "completion_time (processes s ! i) = None"
    "1 \<le> remaining_time (processes s ! i)"
proof -
  define ps where "ps = processes s"
  define dn where "dn = completed_processes s"
  define rq where "rq = ready_queue s"
  have I3: "wf_run ps dn rq" using run_inv_wf[OF inv] unfolding ps_def dn_def rq_def .
  have len: "length ps = length ws" using run_inv_length[OF inv] unfolding ps_def .
  have W: "set rq \<subseteq> {..<length ps}" "set rq \<inter> set dn = {}"
    "\<forall>i<length ps. completion_time (ps ! i) \<noteq> None \<longleftrightarrow> i \<in> set dn"
    using I3 unfolding wf_run_def by blast+
  from admit_wf[OF I3, of "current_time s"] obtain ys where
    ys: "admit ps (current_time s) dn rq = rq @ ys" "set ys \<subseteq> {..<length ps}" "distinct (rq @ ys)"
      "set ys \<inter> set dn = {}" "\<forall>i \<in> set ys. arrival_time (ps ! i) \<le> current_time s"
      "set ys \<inter> set rq = {}"
    by blast
  have "set (i # rest) = set rq \<union> set ys"
    using oq ys(1) unfolding ps_def dn_def rq_def by (metis set_order_queue set_append)
  then have i_in: "i \<in> set rq \<union> set ys" by auto
  then show i_lt: "i < length (processes s)" using W(1) ys(2) unfolding ps_def by auto
  have "i \<notin> set dn" using i_in W(2) ys(4) by auto
  then show "completion_time (processes s ! i) = None" using W(3) i_lt unfolding ps_def by blast
  then show "1 \<le> remaining_time (processes s ! i)"
    using run_inv_pending[OF inv] i_lt len unfolding ps_def by simp
qed

text \<open>With a quantum that covers every remaining time, a Round Robin step is an FCFS step.\<close>

lemma round_robin_step_covers:
  assumes inv: "run_inv Full ws s"
    and cov: "\<forall>p \<in> set (processes s). remaining_time p \<le> quantum"
  shows "policy_step Fifo (Quantum quantum) s = policy_step Fifo Full s"
    and "\<forall>p \<in> set (processes (policy_step Fifo Full s)). remaining_time p \<le> quantum"
proof -
  define rq where "rq = admit (processes s) (current_time s) (completed_processes s) (ready_queue s)"
  show "policy_step Fifo (Quantum quantum) s = policy_step Fifo Full s"
  proof (cases "rq = []")
    case True
    then show ?thesis unfolding policy_step_def rq_def[symmetric] by simp
  next
    case False
    then obtain i rest where ir: "rq = i # rest" by (cases rq) auto
    then have "order_queue Fifo (processes s) rq = i # rest" by (simp add: order_queue_def)
    from run_inv_head(1)[OF inv this[unfolded rq_def]]
    have "processes s ! i \<in> set (processes s)" by simp
    then have "remaining_time (processes s ! i) \<le> quantum" using cov by blast
    then have "min quantum (remaining_time (processes s ! i)) = remaining_time (processes s ! i)"
      by simp
    then show ?thesis
      unfolding policy_step_def rq_def[symmetric] ir
      by (simp add: order_queue_def slice_len_def Let_def)
  qed
  show "\<forall>p \<in> set (processes (policy_step Fifo Full s)). remaining_time p \<le> quantum"
  proof (cases rule: policy_step_cases[of s Fifo Full])
    case idle
    then show ?thesis using cov by simp
  next
    case (complete i rest p)
    from run_inv_head[OF inv complete(1)]
    have i: "i < length (processes s)" "1 \<le> remaining_time (processes s ! i)" by simp_all
    then have "processes s ! i \<in> set (processes s)" by simp
    then have q0: "0 \<le> quantum" using cov i(2) by fastforce
    show ?thesis
    proof
      fix x assume "x \<in> set (processes (policy_step Fifo Full s))"
      then have "x \<in> insert (p\<lparr>remaining_time := 0,
            completion_time := Some (current_time s + slice_len Full p)\<rparr>) (set (processes s))"
        unfolding complete(4) using set_update_subset_insert by fastforce
      then show "remaining_time x \<le> quantum" using cov q0 by auto
    qed
  next
    case (requeue i rest p)
    then show ?thesis by (simp add: slice_len_def)
  qed
qed

lemma round_robin_run_covers:
  assumes b: "\<forall>p \<in> set (original_processes self). 1 \<le> burst_time p"
    and cov: "\<forall>p \<in> set (original_processes self). burst_time p \<le> quantum"
  shows "policy_run Fifo (Quantum quantum) self = policy_run Fifo Full self"
proof -
  define P where "P = (\<lambda>s. run_inv Full (original_processes self) s \<and>
                         (\<forall>p \<in> set (processes s). remaining_time p \<le> quantum))"
  have "map_option id (while_option loop_cond (policy_step Fifo Full)
            (start_run (reset_processes self))) =
        while_option loop_cond (policy_step Fifo (Quantum quantum))
            (id (start_run (reset_processes self)))"
  proof (rule while_option_commute_invariant[where P = P])
    show "P (start_run (reset_processes self))"
      unfolding P_def using run_inv_start[OF b] cov
      by (auto simp: start_run_def reset_processes_def clone_def)
    show "P (policy_step Fifo Full s)" if "P s" "loop_cond s" for s
      using that(1) run_inv_step[OF b] round_robin_step_covers(2) unfolding P_def by blast
    show "loop_cond s = loop_cond (id s)" if "P s" for s by simp
    show "id (policy_step Fifo Full s) = policy_step Fifo (Quantum quantum) (id s)"
      if "P s" "loop_cond s" for s
      using that(1) round_robin_step_covers(1)[of "original_processes self" s quantum]
      unfolding P_def by simp
  qed
  then show ?thesis unfolding policy_run_def by (simp add: option.map_id)
qed

text \<open>
  Claim C5.  On a workload of valid descriptors, Round Robin with a quantum that is at least
  every burst time ends in the very state in which FCFS ends: every process has the same
  \<open>completion_time\<close> (and \<open>start_time\<close>) under both, and both methods end with the same
  result of \<open>get_metrics\<close>.
\<close>

theorem round_robin_degenerates_to_fcfs:
  assumes "valid_descriptors ws" and "\<forall>p \<in> set ws. burst_time p \<le> quantum"
  shows "\<exists>s s'. round_robin_run quantum (Scheduler_init ws) = Some s \<and>
              fcfs_run (Scheduler_init ws) = Some s' \<and>
              length (processes s) = length ws \<and> length (processes s') = length ws \<and>
              (\<forall>i<length ws. completion_time (processes s ! i) \<noteq> None \<and>
                   completion_time (processes s ! i) = completion_time (processes s' ! i)) \<and>
              round_robin quantum (Scheduler_init ws) = fcfs (Scheduler_init ws)"
proof -
  have b: "\<forall>p \<in> set (original_processes (Scheduler_init ws)). 1 \<le> burst_time p"
    using valid_bursts[OF assms(1)] by simp
  have cov: "\<forall>p \<in> set (original_processes (Scheduler_init ws)). burst_time p \<le> quantum"
    using assms(2) by simp
  have eq: "round_robin_run quantum (Scheduler_init ws) = fcfs_run (Scheduler_init ws)"
    using round_robin_run_covers[OF b cov]
    unfolding policy_run_def round_robin_run_def fcfs_run_def round_robin_step_eq fcfs_step_eq .
  from policy_run_terminates[OF b, of Full Fifo]
  obtain s where s: "policy_run Fifo Full (Scheduler_init ws) = Some s"
    by (auto simp: progress_def)
  have inv: "run_inv Full ws s" and lc: "\<not> loop_cond s"
    using policy_run_inv[OF b s] by simp_all
  have f: "fcfs_run (Scheduler_init ws) = Some s"
    using s unfolding policy_run_def fcfs_run_def fcfs_step_eq .
  have "length (processes s) = length ws" by (rule run_inv_length[OF inv])
  moreover have "\<forall>i<length ws. completion_time (processes s ! i) \<noteq> None"
    using run_inv_all_completed[OF inv lc] by blast
  ultimately show ?thesis using eq f by (auto simp: round_robin_def fcfs_def)
qed

theorem round_robin_degenerates_to_fcfs_witness:
  "valid_descriptors
     [\<lparr>pid = 0, arrival_time = 0, burst_time = 5, priority = 1, remaining_time = 0,
        start_time = None, completion_time = None\<rparr>,
      \<lparr>pid = 1, arrival_time = 1, burst_time = 3, priority = 2, remaining_time = 0,
        start_time = None, completion_time = None\<rparr>] \<and>
   round_robin 5 (Scheduler_init
     [\<lparr>pid = 0, arrival_time = 0, burst_time = 5, priority = 1, remaining_time = 0,
        start_time = None, completion_time = None\<rparr>,
      \<lparr>pid = 1, arrival_time = 1, burst_time = 3, priority = 2, remaining_time = 0,
        start_time = None, completion_time = None\<rparr>]) =
   fcfs (Scheduler_init
     [\<lparr>pid = 0, arrival_time = 0, burst_time = 5, priority = 1, remaining_time = 0,
        start_time = None, completion_time = None\<rparr>,
      \<lparr>pid = 1, arrival_time = 1, burst_time = 3, priority = 2, remaining_time = 0,
        start_time = None, completion_time = None\<rparr>]) \<and>
   map_option (\<lambda>s. map completion_time (processes s)) (round_robin_run 5 (Scheduler_init
     [\<lparr>pid = 0, arrival_time = 0, burst_time = 5, priority = 1, remaining_time = 0,
        start_time = None, completion_time = None\<rparr>,
      \<lparr>pid = 1, arrival_time = 1, burst_time = 3, priority = 2, remaining_time = 0,
        start_time = None, completion_time = None\<rparr>])) = Some [Some 5, Some 8]"
proof -
  let ?ws = "[\<lparr>pid = 0, arrival_time = 0, burst_time = 5, priority = 1, remaining_time = 0,
        start_time = None, completion_time = None\<rparr>,
      \<lparr>pid = 1, arrival_time = 1, burst_time = 3, priority = 2, remaining_time = 0,
        start_time = None, completion_time = (None :: int option)\<rparr>]"
  have v: "valid_descriptors ?ws" by (simp add: valid_descriptors_def)
  have c: "\<forall>p \<in> set ?ws. burst_time p \<le> 5" by simp
  have e: "map_option (\<lambda>s. map completion_time (processes s))
             (round_robin_run 5 (Scheduler_init ?ws)) = Some [Some 5, Some 8]"
    by (simp add: run_eval)
  from round_robin_degenerates_to_fcfs[OF v c] v e show ?thesis by auto
qed

subsection \<open>The tiers of Multilevel Queue\<close>

lemma tiers_inv_start: "tiers_inv (original_processes self) (start_mlq (reset_processes self))"
  by (auto simp: tiers_inv_def start_mlq_def reset_processes_def descr_def clone_def
      less_Suc_eq numeral_3_eq_3)

lemma tiers_inv_admit:
  assumes inv: "tiers_inv ws s"
    and adm: "mlq_admit (processes s) (current_time s) (completed_processes s) (queues s) = Inr qs'"
  shows "tiers_inv ws (s\<lparr>queues := qs'\<rparr>)" "\<forall>k<3. set (queues s ! k) \<subseteq> set (qs' ! k)"
proof -
  have l3: "length (queues s) = 3" using inv unfolding tiers_inv_def by blast
  have A: "admitted_to (processes s) (current_time s) (completed_processes s) (queues s) qs'"
    using mlq_admit_shape[OF adm] .
  have len': "length qs' = 3" using A l3 unfolding admitted_to_def by simp
  have ext: "\<exists>zs. qs' ! k = queues s ! k @ zs \<and>
        (\<forall>i \<in> set zs. i < length (processes s) \<and> tier_slot (processes s ! i) = Some k)"
    if k: "k < 3" for k
  proof -
    from A k l3 obtain zs where zs: "qs' ! k = queues s ! k @ zs" "set zs \<subseteq> {..<length (processes s)}"
      "\<forall>i \<in> set zs. list_index (length (queues s)) (min (priority (processes s ! i) div 4) 2) = Some k"
      unfolding admitted_to_def by (metis (no_types, lifting))
    then show ?thesis unfolding l3 tier_slot_def by auto
  qed
  show "\<forall>k<3. set (queues s ! k) \<subseteq> set (qs' ! k)" using ext by fastforce
  have "\<forall>k<3. \<forall>i \<in> set (qs' ! k). i < length (processes s) \<and> tier_slot (processes s ! i) = Some k"
  proof (intro allI impI ballI)
    fix k i assume k: "k < (3::nat)" and i: "i \<in> set (qs' ! k)"
    from ext[OF k] obtain zs where zs: "qs' ! k = queues s ! k @ zs"
      "\<forall>i \<in> set zs. i < length (processes s) \<and> tier_slot (processes s ! i) = Some k" by blast
    show "i < length (processes s) \<and> tier_slot (processes s ! i) = Some k"
      using i zs inv k unfolding tiers_inv_def by auto
  qed
  then show "tiers_inv ws (s\<lparr>queues := qs'\<rparr>)"
    using inv len' unfolding tiers_inv_def by simp
qed

lemma tier_slot_update:
  "priority p = priority (ps ! i) \<Longrightarrow> tier_slot (ps[i := p] ! x) = tier_slot (ps ! x)"
proof (cases "i < length ps")
  case True
  assume "priority p = priority (ps ! i)"
  then show ?thesis using True by (cases "x = i") (simp_all add: tier_slot_def)
next
  case False
  then have "ps[i := p] = ps" by (intro list_update_beyond) simp
  then show ?thesis by simp
qed

lemma tiers_inv_step:
  assumes inv0: "tiers_inv ws s" and st: "multilevel_queue_step quantum s = Inr s'"
  shows "tiers_inv ws s'"
    and "\<forall>k<3. \<forall>i \<in> set (queues s ! k).
           completion_time (processes s' ! i) = None \<longrightarrow> i \<in> set (queues s' ! k)"
proof -
  define ps where "ps = processes s"
  have "\<exists>qs. mlq_admit ps (current_time s) (completed_processes s) (queues s) = Inr qs"
    using st by (cases rule: multilevel_queue_step_cases[of s quantum]) (auto simp: ps_def)
  then obtain qs where adm: "mlq_admit ps (current_time s) (completed_processes s) (queues s) = Inr qs"
    by blast
  have inv: "tiers_inv ws (s\<lparr>queues := qs\<rparr>)" and sub: "\<forall>k<3. set (queues s ! k) \<subseteq> set (qs ! k)"
    using tiers_inv_admit[OF inv0 adm[unfolded ps_def]] by blast+
  have l3: "length qs = 3" and I2: "map descr ps = map descr ws"
    and T: "\<forall>k<3. \<forall>i \<in> set (qs ! k). i < length ps \<and> tier_slot (ps ! i) = Some k"
    using inv unfolding tiers_inv_def ps_def by simp_all
  have both: "tiers_inv ws s' \<and> (\<forall>k<3. \<forall>i \<in> set (qs ! k).
           completion_time (processes s' ! i) = None \<longrightarrow> i \<in> set (queues s' ! k))"
  proof (cases rule: multilevel_queue_step_cases[of s quantum])
    case (error e)
    then show ?thesis using st by simp
  next
    case c: (idle qs')
    have q: "qs' = qs" using c(1) adm unfolding ps_def by simp
    have s': "s' = s\<lparr>current_time := current_time s + 1, queues := qs\<rparr>" using c(3) st q by simp
    show ?thesis using inv unfolding s' tiers_inv_def by simp
  next
    case c: (complete qs' k i rest p e)
    have q: "qs' = qs" using c(1) adm unfolding ps_def by simp
    note c = c[unfolded q, folded ps_def]
    have k: "k < 3" using c(2) l3 by simp
    have i_lt: "i < length ps" using T k c(4) by simp
    define p' where "p' = p\<lparr>remaining_time := 0, completion_time := Some (current_time s + e)\<rparr>"
    have s': "processes s' = ps[i := p']" "queues s' = qs[k := rest]"
      using c(8) st unfolding p'_def by auto
    have pp: "priority p' = priority (ps ! i)" by (simp add: p'_def c(5) set_start_def)
    have dp: "descr p' = descr (ps ! i)" by (simp add: p'_def c(5) descr_def set_start_def)
    have qk: "qs[k := rest] ! j = (if j = k then rest else qs ! j)" if "j < 3" for j
      using that l3 by (simp add: nth_list_update)
    have "tiers_inv ws s'"
      unfolding tiers_inv_def s'
    proof (intro conjI allI impI ballI)
      show "length (qs[k := rest]) = 3" using l3 by simp
      show "map descr (ps[i := p']) = map descr ws" using map_descr_update[OF dp] I2 by simp
    next
      fix j x assume j: "j < (3::nat)" and x: "x \<in> set (qs[k := rest] ! j)"
      then have "x \<in> set (qs ! j)" using qk[OF j] c(4) by (auto split: if_splits)
      then have "x < length ps" "tier_slot (ps ! x) = Some j" using T j by blast+
      then show "x < length (ps[i := p'])" "tier_slot (ps[i := p'] ! x) = Some j"
        using tier_slot_update[OF pp] by simp_all
    qed
    moreover have "\<forall>j<3. \<forall>x \<in> set (qs ! j).
           completion_time (processes s' ! x) = None \<longrightarrow> x \<in> set (queues s' ! j)"
    proof (intro allI impI ballI)
      fix j x assume j: "j < (3::nat)" and x: "x \<in> set (qs ! j)"
        and n: "completion_time (processes s' ! x) = None"
      have "x \<noteq> i" using n i_lt unfolding s' p'_def by auto
      then show "x \<in> set (queues s' ! j)" using x qk[OF j] c(4) unfolding s' by auto
    qed
    ultimately show ?thesis by blast
  next
    case c: (requeue qs' k i rest p e)
    have q: "qs' = qs" using c(1) adm unfolding ps_def by simp
    note c = c[unfolded q, folded ps_def]
    have k: "k < 3" using c(2) l3 by simp
    define p' where "p' = p\<lparr>remaining_time := remaining_time (ps ! i) - e\<rparr>"
    have s': "processes s' = ps[i := p']" "queues s' = qs[k := rest @ [i]]"
      using c(8) st unfolding p'_def by auto
    have pp: "priority p' = priority (ps ! i)" by (simp add: p'_def c(5) set_start_def)
    have dp: "descr p' = descr (ps ! i)" by (simp add: p'_def c(5) descr_def set_start_def)
    have qset: "set (qs[k := rest @ [i]] ! j) = set (qs ! j)" if "j < 3" for j
      using that l3 c(4) by (cases "j = k") (auto simp: nth_list_update)
    have "tiers_inv ws s'"
      unfolding tiers_inv_def s'
    proof (intro conjI allI impI ballI)
      show "length (qs[k := rest @ [i]]) = 3" using l3 by simp
      show "map descr (ps[i := p']) = map descr ws" using map_descr_update[OF dp] I2 by simp
    next
      fix j x assume j: "j < (3::nat)" and x: "x \<in> set (qs[k := rest @ [i]] ! j)"
      then have "x \<in> set (qs ! j)" using qset[OF j] by simp
      then have "x < length ps" "tier_slot (ps ! x) = Some j" using T j by blast+
      then show "x < length (ps[i := p'])" "tier_slot (ps[i := p'] ! x) = Some j"
        using tier_slot_update[OF pp] by simp_all
    qed
    then show ?thesis using qset unfolding s' by simp
  qed
  then show "tiers_inv ws s'" by blast
  show "\<forall>k<3. \<forall>i \<in> set (queues s ! k).
           completion_time (processes s' ! i) = None \<longrightarrow> i \<in> set (queues s' ! k)"
    using both sub by blast
qed

lemma mlq_reach_tiers_inv:
  "mlq_reach quantum self s \<Longrightarrow> tiers_inv (original_processes self) s"
  by (induction rule: mlq_reach.induct) (auto intro: tiers_inv_start tiers_inv_step(1))

lemma multilevel_queue_run_reach:
  assumes "multilevel_queue_run quantum self = Some x"
  shows "mlq_reach quantum self (snd x)"
proof -
  define P where "P = (\<lambda>y :: error option \<times> mlq_state. mlq_reach quantum self (snd y))"
  have step: "P (mlq_body quantum y)" if "P y" "mlq_cond y" for y
  proof (cases "multilevel_queue_step quantum (snd y)")
    case (Inl e)
    then show ?thesis using that by (simp add: mlq_body_def P_def)
  next
    case (Inr s')
    then have "mlq_reach quantum self s'"
      using that mlq_reach.step[of quantum self "snd y" s'] by (simp add: mlq_cond_def P_def)
    then show ?thesis using Inr by (simp add: mlq_body_def P_def)
  qed
  have "P x"
    using assms unfolding multilevel_queue_run_def
    by (rule while_option_rule[where P = P, rotated]) (use step in \<open>auto simp: P_def intro: mlq_reach.start\<close>)
  then show ?thesis unfolding P_def .
qed

subsection \<open>Tier membership and tier 0 (claims C6 and C7)\<close>

lemma list_index_nonneg: "list_index n j = Some k \<Longrightarrow> 0 \<le> j \<Longrightarrow> int k = j"
  by (auto simp: list_index_def split: if_splits)

text \<open>
  Claim C6, as amended.  In every state that the loop of Multilevel Queue goes through, a
  process that is in a queue is in the queue \<open>queues[min(priority // 4, 2)]\<close>, the index read
  as Python reads it, and its priority is the one of its descriptor.  For a priority that is
  not negative the tier is \<open>min(priority div 4, 2)\<close> itself; a negative index counts from the
  end of the list of queues, so a process of negative priority is not in the tier of that
  number.  A step of the loop leaves every queued process that it does not complete in the
  queue where it was: a process whose quantum expired is appended to the queue it was taken
  from, and nothing ever moves to another tier.
\<close>

theorem tier_is_fixed:
  assumes "mlq_reach quantum self s" and "k < 3" and "i \<in> set (queues s ! k)"
  shows "list_index 3 (min (priority (processes s ! i) div 4) 2) = Some k \<and>
         priority (processes s ! i) = priority (original_processes self ! i) \<and>
         (0 \<le> priority (processes s ! i) \<longrightarrow> int k = min (priority (processes s ! i) div 4) 2) \<and>
         (\<forall>s'. multilevel_queue_step quantum s = Inr s' \<longrightarrow>
               completion_time (processes s' ! i) = None \<longrightarrow> i \<in> set (queues s' ! k))"
proof -
  have inv: "tiers_inv (original_processes self) s" by (rule mlq_reach_tiers_inv[OF assms(1)])
  then have i: "i < length (processes s)" and t: "tier_slot (processes s ! i) = Some k"
    and d: "map descr (processes s) = map descr (original_processes self)"
    using assms(2,3) unfolding tiers_inv_def by blast+
  have li: "list_index 3 (min (priority (processes s ! i) div 4) 2) = Some k"
    using t unfolding tier_slot_def .
  have "i < length (original_processes self)" using i d by (metis length_map)
  then have "descr (processes s ! i) = descr (original_processes self ! i)"
    using descr_nth[OF d] by blast
  then have p: "priority (processes s ! i) = priority (original_processes self ! i)"
    by (simp add: descr_def)
  have "0 \<le> priority (processes s ! i) \<longrightarrow> int k = min (priority (processes s ! i) div 4) 2"
    using list_index_nonneg[OF li] by (simp add: pos_imp_zdiv_nonneg_iff)
  moreover have "\<forall>s'. multilevel_queue_step quantum s = Inr s' \<longrightarrow>
               completion_time (processes s' ! i) = None \<longrightarrow> i \<in> set (queues s' ! k)"
    using tiers_inv_step(2)[OF inv] assms(2,3) by blast
  ultimately show ?thesis using li p by blast
qed

lemma mlq_example_step:
  "multilevel_queue_step 2 (start_mlq (reset_processes (Scheduler_init
      [\<lparr>pid = 0, arrival_time = 0, burst_time = 3, priority = 5, remaining_time = 0,
         start_time = None, completion_time = None\<rparr>]))) =
   Inr \<lparr>original_processes =
          [\<lparr>pid = 0, arrival_time = 0, burst_time = 3, priority = 5, remaining_time = 0,
             start_time = None, completion_time = None\<rparr>],
        processes =
          [\<lparr>pid = 0, arrival_time = 0, burst_time = 3, priority = 5, remaining_time = 1,
             start_time = Some 0, completion_time = None\<rparr>],
        current_time = 2, completed_processes = [], queues = [[], [0], []]\<rparr>"
  by (simp add: multilevel_queue_step_def mlq_admit_def mlq_admit_one_def obj_in_def
      list_index_def first_nonempty_def set_start_def Let_def start_mlq_def reset_processes_def
      Scheduler_init_def clone_def)

theorem tier_is_fixed_witness:
  "mlq_reach 2 (Scheduler_init
      [\<lparr>pid = 0, arrival_time = 0, burst_time = 3, priority = 5, remaining_time = 0,
         start_time = None, completion_time = None\<rparr>])
     \<lparr>original_processes =
          [\<lparr>pid = 0, arrival_time = 0, burst_time = 3, priority = 5, remaining_time = 0,
             start_time = None, completion_time = None\<rparr>],
        processes =
          [\<lparr>pid = 0, arrival_time = 0, burst_time = 3, priority = 5, remaining_time = 1,
             start_time = Some 0, completion_time = None\<rparr>],
        current_time = 2, completed_processes = [], queues = [[], [0], []]\<rparr> \<and>
   list_index 3 (min (5 div 4) 2) = Some 1"
proof -
  let ?self = "Scheduler_init
      [\<lparr>pid = 0, arrival_time = 0, burst_time = 3, priority = 5, remaining_time = 0,
         start_time = None, completion_time = (None :: int option)\<rparr>]"
  let ?s = "\<lparr>original_processes =
          [\<lparr>pid = 0, arrival_time = 0, burst_time = 3, priority = 5, remaining_time = 0,
             start_time = None, completion_time = None\<rparr>],
        processes =
          [\<lparr>pid = 0, arrival_time = 0, burst_time = 3, priority = 5, remaining_time = 1,
             start_time = Some 0, completion_time = None\<rparr>],
        current_time = 2, completed_processes = [], queues = [[], [0 :: nat], []]\<rparr>"
  have lc: "loop_cond (start_mlq (reset_processes ?self))"
    by (simp add: loop_cond_def start_mlq_def reset_processes_def Scheduler_init_def)
  have r: "mlq_reach 2 ?self ?s"
    by (rule mlq_reach.step[OF mlq_reach.start lc mlq_example_step])
  have k: "(1::nat) < 3" by simp
  have i: "0 \<in> set (queues ?s ! 1)" by simp
  from tier_is_fixed[OF r k i] r show ?thesis by simp
qed

text \<open>
  A descriptor of priority -1: \<open>min(-1 // 4, 2)\<close> is -1, and \<open>queues[-1]\<close> is the last of the
  three queues.  After its first quantum the process is in queue 2, not in a tier -1.
\<close>

lemma mlq_negative_priority_step:
  "multilevel_queue_step 2 (start_mlq (reset_processes (Scheduler_init
      [\<lparr>pid = 0, arrival_time = 0, burst_time = 3, priority = - 1, remaining_time = 0,
         start_time = None, completion_time = None\<rparr>]))) =
   Inr \<lparr>original_processes =
          [\<lparr>pid = 0, arrival_time = 0, burst_time = 3, priority = - 1, remaining_time = 0,
             start_time = None, completion_time = None\<rparr>],
        processes =
          [\<lparr>pid = 0, arrival_time = 0, burst_time = 3, priority = - 1, remaining_time = 1,
             start_time = Some 0, completion_time = None\<rparr>],
        current_time = 2, completed_processes = [], queues = [[], [], [0]]\<rparr>"
  by (simp add: multilevel_queue_step_def mlq_admit_def mlq_admit_one_def obj_in_def
      list_index_def first_nonempty_def set_start_def Let_def start_mlq_def reset_processes_def
      Scheduler_init_def clone_def)

theorem tier_index_counterexample:
  "valid_descriptors
      [\<lparr>pid = 0, arrival_time = 0, burst_time = 3, priority = - 1, remaining_time = 0,
         start_time = None, completion_time = None\<rparr>] \<and>
   mlq_reach 2 (Scheduler_init
      [\<lparr>pid = 0, arrival_time = 0, burst_time = 3, priority = - 1, remaining_time = 0,
         start_time = None, completion_time = None\<rparr>])
     \<lparr>original_processes =
          [\<lparr>pid = 0, arrival_time = 0, burst_time = 3, priority = - 1, remaining_time = 0,
             start_time = None, completion_time = None\<rparr>],
        processes =
          [\<lparr>pid = 0, arrival_time = 0, burst_time = 3, priority = - 1, remaining_time = 1,
             start_time = Some 0, completion_time = None\<rparr>],
        current_time = 2, completed_processes = [], queues = [[], [], [0]]\<rparr> \<and>
   [[], [], [0::nat]] ! 2 = [0] \<and>
   min (priority \<lparr>pid = 0, arrival_time = 0, burst_time = 3, priority = - 1, remaining_time = 1,
             start_time = Some 0, completion_time = None\<rparr> div 4) 2 = - 1 \<and>
   int 2 \<noteq> min (priority \<lparr>pid = 0, arrival_time = 0, burst_time = 3, priority = - 1,
             remaining_time = 1, start_time = Some 0, completion_time = None\<rparr> div 4) 2"
proof -
  let ?self = "Scheduler_init
      [\<lparr>pid = 0, arrival_time = 0, burst_time = 3, priority = - 1, remaining_time = 0,
         start_time = None, completion_time = (None :: int option)\<rparr>]"
  have lc: "loop_cond (start_mlq (reset_processes ?self))"
    by (simp add: loop_cond_def start_mlq_def reset_processes_def Scheduler_init_def)
  have r: "mlq_reach 2 ?self
     \<lparr>original_processes =
          [\<lparr>pid = 0, arrival_time = 0, burst_time = 3, priority = - 1, remaining_time = 0,
             start_time = None, completion_time = None\<rparr>],
        processes =
          [\<lparr>pid = 0, arrival_time = 0, burst_time = 3, priority = - 1, remaining_time = 1,
             start_time = Some 0, completion_time = None\<rparr>],
        current_time = 2, completed_processes = [], queues = [[], [], [0]]\<rparr>"
    by (rule mlq_reach.step[OF mlq_reach.start lc mlq_negative_priority_step])
  show ?thesis using r by (simp add: valid_descriptors_def)
qed

text \<open>
  Claim C7.  In every state that the loop of Multilevel Queue goes through, a queued
  process of priority 0 is in queue 0.  When the step dispatches a process of priority 0,
  it takes it from queue 0 and completes it in that same step: its \<open>completion_time\<close> is the
  clock at dispatch plus its \<open>remaining_time\<close>, the clock moves there, and no other record
  changes in between.
\<close>

theorem priority_0_runs_to_completion:
  assumes "mlq_reach quantum self s"
    and "mlq_admit (processes s) (current_time s) (completed_processes s) (queues s) = Inr qs"
    and "\<not> (\<forall>q \<in> set qs. q = [])"
    and "i = hd (qs ! first_nonempty qs)"
    and "priority (processes s ! i) = 0"
  shows "first_nonempty qs = 0 \<and> i < length (processes s) \<and>
         (\<forall>k<3. \<forall>j \<in> set (queues s ! k). priority (processes s ! j) = 0 \<longrightarrow> k = 0) \<and>
         (\<exists>s'. multilevel_queue_step quantum s = Inr s' \<and>
            completion_time (processes s' ! i) =
              Some (current_time s + remaining_time (processes s ! i)) \<and>
            remaining_time (processes s' ! i) = 0 \<and>
            current_time s' = current_time s + remaining_time (processes s ! i) \<and>
            completed_processes s' = completed_processes s @ [i] \<and>
            queues s' = qs[0 := tl (qs ! 0)] \<and>
            (\<forall>j. j \<noteq> i \<longrightarrow> processes s' ! j = processes s ! j))"
proof -
  have inv0: "tiers_inv (original_processes self) s" by (rule mlq_reach_tiers_inv[OF assms(1)])
  have inv: "tiers_inv (original_processes self) (s\<lparr>queues := qs\<rparr>)"
    by (rule tiers_inv_admit(1)[OF inv0 assms(2)])
  have z: "tier_slot p = Some 0" if "priority p = 0" for p
    using that by (simp add: tier_slot_def list_index_def)
  have T: "\<forall>k<3. \<forall>j \<in> set (qs ! k). j < length (processes s) \<and> tier_slot (processes s ! j) = Some k"
    and l3: "length qs = 3"
    using inv unfolding tiers_inv_def by simp_all
  have T0: "\<forall>k<3. \<forall>j \<in> set (queues s ! k). priority (processes s ! j) = 0 \<longrightarrow> k = 0"
    using inv0 z unfolding tiers_inv_def by fastforce
  show ?thesis
  proof (cases rule: multilevel_queue_step_cases[of s quantum])
    case (error e)
    then show ?thesis using assms(2) by simp
  next
    case (idle qs')
    then show ?thesis using assms(2,3) by simp
  next
    case c: (complete qs' k i' rest p e)
    have q: "qs' = qs" using c(1) assms(2) by simp
    note c = c[unfolded q]
    have fk: "first_nonempty qs = k"
      using first_nonempty_props[OF assms(3)] c(2,3,4)
      by (metis list.distinct(1) nat_neq_iff)
    have ii: "i' = i" using assms(4) fk c(4) by simp
    note c = c[unfolded ii]
    have k3: "k < 3" using c(2) l3 by simp
    have i_lt: "i < length (processes s)" and ts: "tier_slot (processes s ! i) = Some k"
      using T k3 c(4) by simp_all
    have k0: "k = 0" using ts z[OF assms(5)] by simp
    have e: "e = remaining_time (processes s ! i)" using c(6) k0 by simp
    have "multilevel_queue_step quantum s =
        Inr (s\<lparr>processes := (processes s)[i := p\<lparr>remaining_time := 0,
                   completion_time := Some (current_time s + remaining_time (processes s ! i))\<rparr>],
              current_time := current_time s + remaining_time (processes s ! i),
              completed_processes := completed_processes s @ [i],
              queues := qs[0 := tl (qs ! 0)]\<rparr>)"
      using c(8) c(4) unfolding e k0 by simp
    then show ?thesis using fk k0 i_lt T0 by simp
  next
    case c: (requeue qs' k i' rest p e)
    have q: "qs' = qs" using c(1) assms(2) by simp
    note c = c[unfolded q]
    have fk: "first_nonempty qs = k"
      using first_nonempty_props[OF assms(3)] c(2,3,4)
      by (metis list.distinct(1) nat_neq_iff)
    have ii: "i' = i" using assms(4) fk c(4) by simp
    note c = c[unfolded ii]
    have k3: "k < 3" using c(2) l3 by simp
    have ts: "tier_slot (processes s ! i) = Some k" using T k3 c(4) by simp
    have k0: "k = 0" using ts z[OF assms(5)] by simp
    then show ?thesis using c(6,7) by simp
  qed
qed

theorem priority_0_runs_to_completion_witness:
  "first_nonempty [[1], [0], []] = 0 \<and>
   (\<exists>s'. multilevel_queue_step 2 (start_mlq (reset_processes (Scheduler_init
      [\<lparr>pid = 0, arrival_time = 0, burst_time = 2, priority = 5, remaining_time = 0,
         start_time = None, completion_time = None\<rparr>,
       \<lparr>pid = 1, arrival_time = 0, burst_time = 3, priority = 0, remaining_time = 0,
         start_time = None, completion_time = None\<rparr>]))) = Inr s' \<and>
      completion_time (processes s' ! 1) = Some 3 \<and> current_time s' = 3 \<and>
      completed_processes s' = [1] \<and> queues s' = [[], [0], []])"
proof -
  let ?self = "Scheduler_init
      [\<lparr>pid = 0, arrival_time = 0, burst_time = 2, priority = 5, remaining_time = 0,
         start_time = None, completion_time = None\<rparr>,
       \<lparr>pid = 1, arrival_time = 0, burst_time = 3, priority = 0, remaining_time = 0,
         start_time = None, completion_time = (None :: int option)\<rparr>]"
  let ?s = "start_mlq (reset_processes ?self)"
  have adm: "mlq_admit (processes ?s) (current_time ?s) (completed_processes ?s) (queues ?s)
      = Inr [[1], [0], []]"
    by (simp add: mlq_admit_def mlq_admit_one_def obj_in_def list_index_def Let_def
        start_mlq_def reset_processes_def Scheduler_init_def clone_def)
  have ne: "\<not> (\<forall>q \<in> set [[1], [0], [] :: nat list]. q = [])" by simp
  have hd: "(1::nat) = hd ([[1], [0], []] ! first_nonempty [[1], [0], []])"
    by (simp add: first_nonempty_def)
  have pr: "priority (processes ?s ! 1) = 0"
    by (simp add: start_mlq_def reset_processes_def Scheduler_init_def clone_def)
  have v: "current_time ?s + remaining_time (processes ?s ! 1) = 3"
    "completed_processes ?s = []"
    by (simp_all add: start_mlq_def reset_processes_def Scheduler_init_def clone_def)
  from priority_0_runs_to_completion[OF mlq_reach.start adm ne hd pr, where quantum = 2]
  show ?thesis unfolding v by auto
qed

subsection \<open>The run-to-completion policies on every workload\<close>

lemma wf_inv_start: "wf_inv (original_processes self) (start_run (reset_processes self))"
  by (auto simp: wf_inv_def start_run_def reset_processes_def wf_run_def descr_def clone_def)

lemma wf_inv_head:
  assumes inv: "wf_inv ws s"
    and oq: "order_queue ord (processes s)
               (admit (processes s) (current_time s) (completed_processes s) (ready_queue s)) = i # rest"
  shows "i < length (processes s)" "i \<notin> set (completed_processes s)"
    "completion_time (processes s ! i) = None" "distinct (i # rest)"
    "set (i # rest) \<subseteq> {..<length (processes s)}"
    "set (i # rest) \<inter> set (completed_processes s) = {}"
proof -
  define ps where "ps = processes s"
  define dn where "dn = completed_processes s"
  define rq where "rq = ready_queue s"
  have I3: "wf_run ps dn rq" using inv unfolding wf_inv_def ps_def dn_def rq_def by blast
  have W: "set rq \<subseteq> {..<length ps}" "set rq \<inter> set dn = {}"
    "\<forall>i<length ps. completion_time (ps ! i) \<noteq> None \<longleftrightarrow> i \<in> set dn"
    using I3 unfolding wf_run_def by blast+
  from admit_wf[OF I3, of "current_time s"] obtain ys where
    ys: "admit ps (current_time s) dn rq = rq @ ys" "set ys \<subseteq> {..<length ps}" "distinct (rq @ ys)"
      "set ys \<inter> set dn = {}" "\<forall>i \<in> set ys. arrival_time (ps ! i) \<le> current_time s"
      "set ys \<inter> set rq = {}"
    by blast
  have se: "set (i # rest) = set rq \<union> set ys"
    using oq ys(1) unfolding ps_def dn_def rq_def by (metis set_order_queue set_append)
  show "distinct (i # rest)"
    using oq ys(1,3) unfolding ps_def dn_def rq_def by (metis distinct_order_queue)
  show sub: "set (i # rest) \<subseteq> {..<length (processes s)}"
    using se W(1) ys(2) unfolding ps_def by auto
  show dj: "set (i # rest) \<inter> set (completed_processes s) = {}"
    using se W(2) ys(4) unfolding dn_def by auto
  show i_lt: "i < length (processes s)" using sub by simp
  show nd: "i \<notin> set (completed_processes s)" using dj by simp
  show "completion_time (processes s ! i) = None"
    using W(3) i_lt nd unfolding ps_def dn_def by blast
qed

lemma wf_inv_step:
  assumes inv: "wf_inv ws s"
  shows "wf_inv ws (policy_step ord sl s)"
proof -
  define ps where "ps = processes s"
  define dn where "dn = completed_processes s"
  have I1: "original_processes s = ws" and I2: "map descr ps = map descr ws"
    and I3: "wf_run ps dn (ready_queue s)"
    using inv unfolding wf_inv_def ps_def dn_def by blast+
  have Wr: "set dn \<subseteq> {..<length ps}" "distinct dn"
    "\<forall>i<length ps. completion_time (ps ! i) \<noteq> None \<longleftrightarrow> i \<in> set dn"
    using I3 unfolding wf_run_def by blast+
  show ?thesis
  proof (cases rule: policy_step_cases[of s ord sl])
    case idle
    then show ?thesis using inv unfolding wf_inv_def wf_run_def by simp
  next
    case (complete i rest p)
    note h = wf_inv_head[OF inv complete(1), folded ps_def dn_def]
    define p' where "p' = p\<lparr>remaining_time := 0,
        completion_time := Some (current_time s + slice_len sl p)\<rparr>"
    have dp: "descr p' = descr (ps ! i)"
      by (simp add: p'_def complete(2) descr_def set_start_def ps_def)
    have "wf_run (ps[i := p']) (dn @ [i]) rest"
      unfolding wf_run_def
    proof (intro conjI allI impI)
      show "set rest \<subseteq> {..<length (ps[i := p'])}" using h(5) by auto
      show "set (dn @ [i]) \<subseteq> {..<length (ps[i := p'])}" using Wr(1) h(1) by auto
      show "distinct rest" using h(4) by simp
      show "distinct (dn @ [i])" using Wr(2) h(2) by simp
      show "set rest \<inter> set (dn @ [i]) = {}" using h(4,6) by auto
      fix j assume "j < length (ps[i := p'])"
      then have j: "j < length ps" by simp
      show "completion_time (ps[i := p'] ! j) \<noteq> None \<longleftrightarrow> j \<in> set (dn @ [i])"
        using Wr(3) j by (auto simp: nth_list_update[OF h(1)] p'_def)
    qed
    then show ?thesis
      unfolding wf_inv_def complete(4) p'_def[symmetric] ps_def[symmetric] dn_def[symmetric]
      using I1 map_descr_update[OF dp] I2 by simp
  next
    case (requeue i rest p)
    note h = wf_inv_head[OF inv requeue(1), folded ps_def dn_def]
    define p' where "p' = p\<lparr>remaining_time := remaining_time p - slice_len sl p\<rparr>"
    have dp: "descr p' = descr (ps ! i)"
      by (simp add: p'_def requeue(2) descr_def set_start_def ps_def)
    have cp: "completion_time p' = None" using h(3) by (simp add: p'_def requeue(2) ps_def)
    have rs: "set (requeue sl (i # rest)) = set (i # rest)"
      and rd: "distinct (requeue sl (i # rest))"
      using set_requeue[of "i # rest" sl] distinct_requeue[of "i # rest" sl] h(4) by simp_all
    have "wf_run (ps[i := p']) dn (requeue sl (i # rest))"
      unfolding wf_run_def
    proof (intro conjI allI impI)
      show "set (requeue sl (i # rest)) \<subseteq> {..<length (ps[i := p'])}" using rs h(5) by auto
      show "set dn \<subseteq> {..<length (ps[i := p'])}" using Wr(1) by auto
      show "distinct (requeue sl (i # rest))" by (rule rd)
      show "distinct dn" by (rule Wr(2))
      show "set (requeue sl (i # rest)) \<inter> set dn = {}" using rs h(6) by auto
      fix j assume "j < length (ps[i := p'])"
      then have j: "j < length ps" by simp
      show "completion_time (ps[i := p'] ! j) \<noteq> None \<longleftrightarrow> j \<in> set dn"
        using Wr(3) j h(2) cp by (auto simp: nth_list_update[OF h(1)])
    qed
    then show ?thesis
      unfolding wf_inv_def requeue(4) p'_def[symmetric] ps_def[symmetric] dn_def[symmetric]
      using I1 map_descr_update[OF dp] I2 by (simp add: dn_def)
  qed
qed

text \<open>
  The run-to-completion policies end on every workload: each dispatch completes a record,
  and each idle tick brings the clock nearer to the next arrival.
\<close>

lemma full_step_decreases:
  assumes inv: "wf_inv ws s" and lc: "loop_cond s"
  shows "(policy_step ord Full s, s)
           \<in> measures [\<lambda>s. length (processes s) - length (completed_processes s),
                        \<lambda>s. idle_left ws (current_time s)]"
proof -
  define ps where "ps = processes s"
  define t where "t = current_time s"
  define dn where "dn = completed_processes s"
  define rq where "rq = ready_queue s"
  note defs = ps_def t_def dn_def rq_def
  have I2: "map descr ps = map descr ws" and I3: "wf_run ps dn rq"
    using inv unfolding wf_inv_def defs by blast+
  have len: "length ps = length ws" using I2 by (rule map_eq_imp_length_eq)
  show ?thesis
  proof (cases rule: policy_step_cases[of s ord Full])
    case c: idle
    note idle = c[folded defs]
    from pending_exists[OF I3] lc obtain j where j: "j < length ps" "j \<notin> set dn"
      unfolding loop_cond_def defs by blast
    have "\<not> obj_in ps j dn" using obj_in_done[OF I3 j(1)] j(2) by simp
    moreover have "\<not> obj_in ps j (admit ps t dn rq)" using idle(1) by (simp add: obj_in_Nil)
    ultimately have "\<not> arrival_time (ps ! j) \<le> t"
      using admit_covers[OF j(1), of t dn rq] by blast
    then have a1: "t < arrival_time (ps ! j)" by simp
    have "descr (ps ! j) = descr (ws ! j)" using descr_nth[OF I2] j(1) len by simp
    then have a2: "arrival_time (ps ! j) = arrival_time (ws ! j)" by (simp add: descr_def)
    have "ws ! j \<in> set ws" using j(1) len by simp
    then have "arrival_time (ws ! j) \<in> insert 0 (arrival_time ` set ws)" by blast
    then have a3: "arrival_time (ws ! j) \<le> Max (insert 0 (arrival_time ` set ws))"
      by (intro Max_ge) simp_all
    define M where "M = Max (insert 0 (arrival_time ` set ws))"
    have "nat (M - (t + 1)) < nat (M - t)" using a1 a2 a3 unfolding M_def[symmetric] by linarith
    then have "idle_left ws (t + 1) < idle_left ws t"
      unfolding idle_left_def M_def .
    then show ?thesis unfolding idle by (simp add: defs)
  next
    case (complete i rest p)
    have "length dn < length ps" using lc unfolding loop_cond_def defs .
    then show ?thesis unfolding complete(4) by (simp add: defs) linarith
  next
    case (requeue i rest p)
    then show ?thesis by (simp add: slice_len_def)
  qed
qed

lemma full_policy_terminates:
  "\<exists>s. policy_run ord Full self = Some s \<and> wf_inv (original_processes self) s \<and> \<not> loop_cond s"
proof -
  have "\<exists>s. policy_run ord Full self = Some s"
    unfolding policy_run_def
  proof (rule wf_rel_while_option_Some[where P = "wf_inv (original_processes self)"])
    show "wf (measures [\<lambda>s :: run_state. length (processes s) - length (completed_processes s),
                         \<lambda>s. idle_left (original_processes self) (current_time s)])"
      by simp
    show "(policy_step ord Full s, s) \<in> measures
        [\<lambda>s. length (processes s) - length (completed_processes s),
         \<lambda>s. idle_left (original_processes self) (current_time s)]"
      if "wf_inv (original_processes self) s \<and> loop_cond s" for s
      using full_step_decreases that by blast
    show "wf_inv (original_processes self) (policy_step ord Full s)"
      if "wf_inv (original_processes self) s \<and> loop_cond s" for s
      using wf_inv_step that by blast
    show "wf_inv (original_processes self) (start_run (reset_processes self))"
      by (rule wf_inv_start)
  qed
  then obtain s where s: "policy_run ord Full self = Some s" by blast
  have "wf_inv (original_processes self) s"
    using s unfolding policy_run_def
    by (rule while_option_rule[where P = "wf_inv (original_processes self)", rotated])
      (use wf_inv_step wf_inv_start in blast)+
  moreover have "\<not> loop_cond s" using s unfolding policy_run_def by (rule while_option_stop)
  ultimately show ?thesis using s by blast
qed

lemma wf_inv_final:
  assumes inv: "wf_inv ws s" and lc: "\<not> loop_cond s"
  shows "length (processes s) = length ws"
    "\<forall>p \<in> set (processes s). completion_time p \<noteq> None"
proof -
  have "map descr (processes s) = map descr ws" using inv unfolding wf_inv_def by blast
  then show len: "length (processes s) = length ws" by (rule map_eq_imp_length_eq)
  have W: "set (completed_processes s) \<subseteq> {..<length (processes s)}"
    "distinct (completed_processes s)"
    "\<forall>i<length (processes s). completion_time (processes s ! i) \<noteq> None
        \<longleftrightarrow> i \<in> set (completed_processes s)"
    using inv unfolding wf_inv_def wf_run_def by blast+
  show "\<forall>p \<in> set (processes s). completion_time p \<noteq> None"
  proof
    fix p assume "p \<in> set (processes s)"
    then obtain i where i: "i < length (processes s)" "p = processes s ! i"
      by (auto simp: in_set_conv_nth)
    have "i \<in> set (completed_processes s)"
      using all_done[OF W(1,2)] lc i(1) unfolding loop_cond_def by simp
    then show "completion_time p \<noteq> None" using W(3) i by simp
  qed
qed

subsection \<open>The bookkeeping of Multilevel Queue on every workload\<close>

lemma mlq_book_start: "mlq_book (original_processes self) (start_mlq (reset_processes self))"
  by (auto simp: mlq_book_def start_mlq_def reset_processes_def mlq_wf_def descr_def clone_def
      less_Suc_eq numeral_3_eq_3)

lemma mlq_book_admit:
  assumes inv: "mlq_book ws s"
    and adm: "mlq_admit (processes s) (current_time s) (completed_processes s) (queues s) = Inr qs'"
  shows "mlq_book ws (s\<lparr>queues := qs'\<rparr>)"
proof -
  define ps where "ps = processes s"
  define t where "t = current_time s"
  define dn where "dn = completed_processes s"
  define qs where "qs = queues s"
  note defs = ps_def t_def dn_def qs_def
  have I1: "original_processes s = ws"
    and I2: "map descr ps = map descr ws"
    and I3: "mlq_wf ps dn qs"
    and I4: "\<forall>k<3. \<forall>i \<in> set (qs ! k). tier_slot (ps ! i) = Some k"
    using inv unfolding mlq_book_def defs by blast+
  have W: "length qs = 3"
    "\<forall>k<3. set (qs ! k) \<subseteq> {..<length ps} \<and> distinct (qs ! k) \<and> set (qs ! k) \<inter> set dn = {}"
    using I3 unfolding mlq_wf_def by blast+
  have Wr: "set dn \<subseteq> {..<length ps}" "distinct dn"
    "\<forall>i<length ps. completion_time (ps ! i) \<noteq> None \<longleftrightarrow> i \<in> set dn"
    using I3 unfolding mlq_wf_def by blast+
  have A: "admitted_to ps t dn qs qs'"
    using mlq_admit_shape adm unfolding defs by blast
  have len': "length qs' = 3" using A W(1) unfolding admitted_to_def by simp
  have ext: "\<exists>zs. qs' ! k = qs ! k @ zs \<and> distinct zs \<and> set zs \<subseteq> {..<length ps} \<and>
        (\<forall>i \<in> set zs. i \<notin> set dn \<and> (\<forall>j<3. i \<notin> set (qs ! j)) \<and> tier_slot (ps ! i) = Some k)"
    if k: "k < 3" for k
  proof -
    from A k W(1) obtain zs where zs: "qs' ! k = qs ! k @ zs" "distinct zs" "set zs \<subseteq> {..<length ps}"
      "\<forall>i \<in> set zs. arrival_time (ps ! i) \<le> t \<and> i \<notin> set dn \<and>
           (\<forall>q \<in> set qs. i \<notin> set q) \<and>
           list_index (length qs) (min (priority (ps ! i) div 4) 2) = Some k"
      unfolding admitted_to_def by (metis (no_types, lifting))
    have "i \<notin> set dn \<and> (\<forall>j<3. i \<notin> set (qs ! j)) \<and> tier_slot (ps ! i) = Some k"
      if i: "i \<in> set zs" for i
    proof -
      have a: "i \<notin> set dn" "\<forall>q \<in> set qs. i \<notin> set q"
        "list_index (length qs) (min (priority (ps ! i) div 4) 2) = Some k"
        using zs(4) i by blast+
      have nq: "\<forall>j<3. i \<notin> set (qs ! j)" using a(2) W(1) by (metis nth_mem)
      have "tier_slot (ps ! i) = Some k" using a(3) W(1) by (simp add: tier_slot_def)
      with a(1) nq show ?thesis by blast
    qed
    with zs(1,2,3) show ?thesis by blast
  qed
  have C3: "mlq_wf ps dn qs'"
    unfolding mlq_wf_def
  proof (intro conjI allI impI)
    show "length qs' = 3" by (rule len')
    show "set dn \<subseteq> {..<length ps}" "distinct dn" by (rule Wr)+
    fix k :: nat assume k: "k < 3"
    from ext[OF k] obtain zs where zs: "qs' ! k = qs ! k @ zs" "distinct zs" "set zs \<subseteq> {..<length ps}"
      "\<forall>i \<in> set zs. i \<notin> set dn \<and> (\<forall>j<3. i \<notin> set (qs ! j))" by blast
    show "set (qs' ! k) \<subseteq> {..<length ps}" using zs W(2) k by auto
    show "distinct (qs' ! k)" using zs W(2) k by auto
    show "set (qs' ! k) \<inter> set dn = {}" using zs W(2) k by auto
  next
    fix i assume "i < length ps"
    then show "completion_time (ps ! i) \<noteq> None \<longleftrightarrow> i \<in> set dn" using Wr(3) by blast
  qed
  have C4: "\<forall>k<3. \<forall>i \<in> set (qs' ! k). tier_slot (ps ! i) = Some k"
  proof (intro allI impI ballI)
    fix k i assume k: "k < (3::nat)" and i: "i \<in> set (qs' ! k)"
    from ext[OF k] obtain zs where zs: "qs' ! k = qs ! k @ zs"
      "\<forall>i \<in> set zs. tier_slot (ps ! i) = Some k" by blast
    show "tier_slot (ps ! i) = Some k" using zs i I4 k by auto
  qed
  show ?thesis
    unfolding mlq_book_def
    using I1 I2 C3 C4 by (simp add: defs)
qed

lemma mlq_book_step:
  assumes inv0: "mlq_book ws s"
    and st: "multilevel_queue_step quantum s = Inr s'"
  shows "mlq_book ws s'"
proof -
  define ps where "ps = processes s"
  define t where "t = current_time s"
  define dn where "dn = completed_processes s"
  note defs = ps_def t_def dn_def
  have step: "\<And>P. (\<And>qs'. mlq_admit ps t dn (queues s) = Inr qs' \<Longrightarrow> P) \<Longrightarrow> P"
    using st by (cases rule: multilevel_queue_step_cases[of s quantum]) (auto simp: defs)
  then obtain qs where adm: "mlq_admit ps t dn (queues s) = Inr qs" by blast
  have inv: "mlq_book ws (s\<lparr>queues := qs\<rparr>)"
    using mlq_book_admit[OF inv0] adm unfolding defs by blast
  have I1: "original_processes s = ws"
    and I2: "map descr ps = map descr ws"
    and I3: "mlq_wf ps dn qs"
    and I4: "\<forall>k<3. \<forall>i \<in> set (qs ! k). tier_slot (ps ! i) = Some k"
    using inv unfolding mlq_book_def defs by simp_all
  have W: "length qs = 3"
    "\<forall>k<3. set (qs ! k) \<subseteq> {..<length ps} \<and> distinct (qs ! k) \<and> set (qs ! k) \<inter> set dn = {}"
    using I3 unfolding mlq_wf_def by blast+
  have Wr: "set dn \<subseteq> {..<length ps}" "distinct dn"
    "\<forall>i<length ps. completion_time (ps ! i) \<noteq> None \<longleftrightarrow> i \<in> set dn"
    using I3 unfolding mlq_wf_def by blast+
  show ?thesis
  proof (cases rule: multilevel_queue_step_cases[of s quantum])
    case (error e)
    then show ?thesis using st by simp
  next
    case c: (idle qs')
    note idle = c[folded defs]
    have q: "qs' = qs" using idle(1) adm by simp
    have s': "s' = s\<lparr>current_time := t + 1, queues := qs\<rparr>" using idle(3) st q by simp
    show ?thesis
      unfolding mlq_book_def s'
      using I1 I2 I3 I4 by (simp add: defs[symmetric])
  next
    case c: (complete qs' k i rest p e)
    note complete = c[folded defs]
    have q: "qs' = qs" using complete(1) adm by simp
    note complete = complete[unfolded q]
    have k: "k < 3" using complete(2) W(1) by simp
    have i_in: "i \<in> set (qs ! k)" using complete(4) by simp
    have dist: "distinct (i # rest)" using W(2) k complete(4) by metis
    have i_lt: "i < length ps" using i_in W(2) k by blast
    have i_nd: "i \<notin> set dn" using i_in W(2) k by blast
    define p' where "p' = p\<lparr>remaining_time := 0, completion_time := Some (t + e)\<rparr>"
    have s': "s' = s\<lparr>processes := ps[i := p'], current_time := t + e,
              completed_processes := dn @ [i], queues := qs[k := rest]\<rparr>"
      using complete(8) st unfolding p'_def by simp
    note nth = nth_list_update[OF i_lt]
    have dp': "descr p' = descr (ps ! i)" by (simp add: p'_def complete(5) descr_def set_start_def)
    have qk: "qs[k := rest] ! j = (if j = k then rest else qs ! j)" if "j < 3" for j
      using that W(1) by (simp add: nth_list_update)
    have other: "i \<notin> set (qs ! j)" if "j < 3" "j \<noteq> k" for j
      using I4 that k i_in by (metis option.inject)
    have i_rest: "i \<notin> set rest" using dist by simp
    have rest_sub: "set rest \<subseteq> set (qs ! k)" using complete(4) by auto
    have nin: "i \<notin> set (qs[k := rest] ! j)" if "j < 3" for j
      using qk[OF that] other[OF that] i_rest by simp
    have qsub: "set (qs[k := rest] ! j) \<subseteq> set (qs ! j)" if "j < 3" for j
      using qk[OF that] rest_sub by auto
    have qdist: "distinct (qs[k := rest] ! j)" if "j < 3" for j
      using qk[OF that] W(2) that dist by auto
    have C2: "map descr (ps[i := p']) = map descr ws"
      using I2 dp' i_lt by (simp add: map_descr_update)
    have C3: "mlq_wf (ps[i := p']) (dn @ [i]) (qs[k := rest])"
      unfolding mlq_wf_def
    proof (intro conjI allI impI)
      show "length (qs[k := rest]) = 3" using W(1) by simp
      show "set (dn @ [i]) \<subseteq> {..<length (ps[i := p'])}" using Wr(1) i_lt by auto
      show "distinct (dn @ [i])" using Wr(2) i_nd by simp
    next
      fix j :: nat assume j: "j < 3"
      show "set (qs[k := rest] ! j) \<subseteq> {..<length (ps[i := p'])}"
        using qsub[OF j] W(2) j by auto
      show "distinct (qs[k := rest] ! j)" by (rule qdist[OF j])
      show "set (qs[k := rest] ! j) \<inter> set (dn @ [i]) = {}"
        using qsub[OF j] W(2) j nin[OF j] by auto
    next
      fix j assume j: "j < length (ps[i := p'])"
      show "completion_time (ps[i := p'] ! j) \<noteq> None \<longleftrightarrow> j \<in> set (dn @ [i])"
        using Wr(3) j by (cases "j = i") (simp_all add: nth p'_def)
    qed
    have C4: "\<forall>j<3. \<forall>x \<in> set (qs[k := rest] ! j). tier_slot (ps[i := p'] ! x) = Some j"
    proof (intro allI impI ballI)
      fix j x assume j: "j < (3::nat)" and x: "x \<in> set (qs[k := rest] ! j)"
      have xq: "x \<in> set (qs ! j)" using qsub[OF j] x by blast
      have "x \<noteq> i" using nin[OF j] x by blast
      then have "ps[i := p'] ! x = ps ! x" by simp
      then show "tier_slot (ps[i := p'] ! x) = Some j" using I4 j xq by simp
    qed
    show ?thesis
      unfolding mlq_book_def s'
      using I1 C2 C3 C4 by (simp add: defs[symmetric])
  next
    case c: (requeue qs' k i rest p e)
    note requeue = c[folded defs]
    have q: "qs' = qs" using requeue(1) adm by simp
    note requeue = requeue[unfolded q]
    have k: "k < 3" using requeue(2) W(1) by simp
    have i_in: "i \<in> set (qs ! k)" using requeue(4) by simp
    have dist: "distinct (i # rest)" using W(2) k requeue(4) by metis
    have i_lt: "i < length ps" using i_in W(2) k by blast
    have i_nd: "i \<notin> set dn" using i_in W(2) k by blast
    define p' where "p' = p\<lparr>remaining_time := remaining_time (ps ! i) - e\<rparr>"
    have s': "s' = s\<lparr>processes := ps[i := p'], current_time := t + e,
              queues := qs[k := rest @ [i]]\<rparr>"
      using requeue(8) st unfolding p'_def by simp
    note nth = nth_list_update[OF i_lt]
    have dp': "descr p' = descr (ps ! i)" by (simp add: p'_def requeue(5) descr_def set_start_def)
    have cp': "completion_time p' = completion_time (ps ! i)"
      by (simp add: p'_def requeue(5) set_start_def)
    have qk: "qs[k := rest @ [i]] ! j = (if j = k then rest @ [i] else qs ! j)" if "j < 3" for j
      using that W(1) by (simp add: nth_list_update)
    have qset: "set (qs[k := rest @ [i]] ! j) = set (qs ! j)" if "j < 3" for j
      using qk[OF that] requeue(4) by auto
    have qdist: "distinct (qs[k := rest @ [i]] ! j)" if "j < 3" for j
      using qk[OF that] W(2) that dist by auto
    have C2: "map descr (ps[i := p']) = map descr ws"
      using I2 dp' i_lt by (simp add: map_descr_update)
    have C3: "mlq_wf (ps[i := p']) dn (qs[k := rest @ [i]])"
      unfolding mlq_wf_def
    proof (intro conjI allI impI)
      show "length (qs[k := rest @ [i]]) = 3" using W(1) by simp
      show "set dn \<subseteq> {..<length (ps[i := p'])}" using Wr(1) by simp
      show "distinct dn" by (rule Wr(2))
    next
      fix j :: nat assume j: "j < 3"
      show "set (qs[k := rest @ [i]] ! j) \<subseteq> {..<length (ps[i := p'])}"
        using qset[OF j] W(2) j by auto
      show "distinct (qs[k := rest @ [i]] ! j)" by (rule qdist[OF j])
      show "set (qs[k := rest @ [i]] ! j) \<inter> set dn = {}"
        using qset[OF j] W(2) j by auto
    next
      fix j assume j: "j < length (ps[i := p'])"
      show "completion_time (ps[i := p'] ! j) \<noteq> None \<longleftrightarrow> j \<in> set dn"
        using Wr(3) j cp' by (cases "j = i") (simp_all add: nth)
    qed
    have C4: "\<forall>j<3. \<forall>x \<in> set (qs[k := rest @ [i]] ! j). tier_slot (ps[i := p'] ! x) = Some j"
    proof (intro allI impI ballI)
      fix j x assume j: "j < (3::nat)" and x: "x \<in> set (qs[k := rest @ [i]] ! j)"
      have xq: "x \<in> set (qs ! j)" using qset[OF j] x by blast
      have xl: "x < length ps" using xq W(2) j by blast
      have "descr (ps[i := p'] ! x) = descr (ps ! x)"
        using dp' xl by (cases "x = i") (simp_all add: nth)
      then have "tier_slot (ps[i := p'] ! x) = tier_slot (ps ! x)" by (rule tier_slot_descr)
      then show "tier_slot (ps[i := p'] ! x) = Some j" using I4 j xq by simp
    qed
    show ?thesis
      unfolding mlq_book_def s'
      using I1 C2 C3 C4 by (simp add: defs[symmetric])
  qed
qed

lemma multilevel_queue_run_book:
  assumes "multilevel_queue_run quantum self = Some x"
  shows "mlq_book (original_processes self) (snd x)"
proof -
  have step: "mlq_book (original_processes self) (snd (mlq_body quantum y))"
    if "mlq_book (original_processes self) (snd y)" for y
    using that mlq_book_step[of "original_processes self" "snd y" quantum]
    by (cases "multilevel_queue_step quantum (snd y)") (auto simp: mlq_body_def)
  show ?thesis
    using assms unfolding multilevel_queue_run_def
    by (rule while_option_rule[where P = "\<lambda>y. mlq_book (original_processes self) (snd y)", rotated])
      (use step mlq_book_start in auto)
qed

lemma mlq_book_final:
  assumes inv: "mlq_book ws s" and lc: "\<not> loop_cond s"
  shows "length (processes s) = length ws"
    "\<forall>p \<in> set (processes s). completion_time p \<noteq> None"
proof -
  have "map descr (processes s) = map descr ws" using inv unfolding mlq_book_def by blast
  then show len: "length (processes s) = length ws" by (rule map_eq_imp_length_eq)
  have W: "set (completed_processes s) \<subseteq> {..<length (processes s)}"
    "distinct (completed_processes s)"
    "\<forall>i<length (processes s). completion_time (processes s ! i) \<noteq> None
        \<longleftrightarrow> i \<in> set (completed_processes s)"
    using inv unfolding mlq_book_def mlq_wf_def by blast+
  show "\<forall>p \<in> set (processes s). completion_time p \<noteq> None"
  proof
    fix p assume "p \<in> set (processes s)"
    then obtain i where i: "i < length (processes s)" "p = processes s ! i"
      by (auto simp: in_set_conv_nth)
    have "i \<in> set (completed_processes s)"
      using all_done[OF W(1,2)] lc i(1) unfolding loop_cond_def by simp
    then show "completion_time p \<noteq> None" using W(3) i by simp
  qed
qed

subsection \<open>No validation of burst times (claim C1)\<close>

lemma policy_run_wf_inv:
  assumes "policy_run ord sl self = Some s"
  shows "wf_inv (original_processes self) s" "\<not> loop_cond s"
proof -
  show "wf_inv (original_processes self) s"
    using assms unfolding policy_run_def
    by (rule while_option_rule[where P = "wf_inv (original_processes self)", rotated])
      (use wf_inv_step wf_inv_start in blast)+
  show "\<not> loop_cond s" using assms unfolding policy_run_def by (rule while_option_stop)
qed

lemma run_to_completion_single:
  "run_to_completion pol \<Longrightarrow> \<exists>ord. single_queue pol = Some (ord, Full)"
  unfolding run_to_completion_def single_queue_def by auto

lemma run_policy_all_records:
  assumes "run_policy pol self = Some (r, sch)"
  shows "original_processes sch = original_processes self"
    "map descr (processes sch) = map descr (original_processes self)"
    "r = Inl IndexError \<or>
     r = get_metrics sch \<and> (\<forall>p \<in> set (processes sch). completion_time p \<noteq> None)"
proof -
  show "original_processes sch = original_processes self"
    using assms by (rule run_policy_keeps_original)
  from assms show "map descr (processes sch) = map descr (original_processes self)"
  proof (cases rule: run_policy_cases)
    case (single ord sl s)
    then show ?thesis using policy_run_wf_inv(1)[OF single(2)]
      by (simp add: wf_inv_def the_scheduler_def)
  next
    case (mlq_ok quantum s)
    then show ?thesis using multilevel_queue_run_book[OF mlq_ok(2)]
      by (simp add: mlq_book_def the_scheduler_def)
  next
    case (mlq_err quantum s)
    then show ?thesis using multilevel_queue_run_book[OF mlq_err(2)]
      by (simp add: mlq_book_def the_scheduler_def)
  qed
  from assms show "r = Inl IndexError \<or>
     r = get_metrics sch \<and> (\<forall>p \<in> set (processes sch). completion_time p \<noteq> None)"
  proof (cases rule: run_policy_cases)
    case (single ord sl s)
    then show ?thesis using wf_inv_final(2)[OF policy_run_wf_inv[OF single(2)]]
      by (simp add: the_scheduler_def)
  next
    case (mlq_ok quantum s)
    then show ?thesis
      using mlq_book_final(2)[OF _ mlq_ok(3)] multilevel_queue_run_book[OF mlq_ok(2)]
      by (simp add: the_scheduler_def)
  next
    case (mlq_err quantum s)
    then show ?thesis by simp
  qed
qed

text \<open>
  Claim C1, as amended.  No descriptor is rejected; nothing looks at \<open>burst_time\<close> before a
  run.  Constructing the Scheduler succeeds on every input list and clones every descriptor,
  whatever its \<open>burst_time\<close>, into a record with \<open>remaining_time = burst_time\<close> and no
  timestamps.  On every input list the run-to-completion policies (FCFS, SJF non-preemptive,
  Priority non-preemptive) run the simulation to its end and complete every record.  For
  each of the seven policy methods and every input list: when the method ends, its records
  are those of all the descriptors of the input list, none is skipped; and unless the loop
  was left by the \<open>IndexError\<close> of Multilevel Queue (which depends on the priorities only),
  every record is completed and the method ends with what \<open>get_metrics\<close> gives on these
  records.
\<close>

theorem no_descriptor_is_rejected:
  "Scheduler_init ws = \<lparr>original_processes = ws, processes = map clone ws\<rparr> \<and>
   map remaining_time (processes (Scheduler_init ws)) = map burst_time ws \<and>
   (run_to_completion pol \<longrightarrow>
      (\<exists>r sch. run_policy pol (Scheduler_init ws) = Some (r, sch) \<and> r = get_metrics sch \<and>
         length (processes sch) = length ws \<and>
         (\<forall>p \<in> set (processes sch). completion_time p \<noteq> None))) \<and>
   (\<forall>r sch. run_policy pol (Scheduler_init ws) = Some (r, sch) \<longrightarrow>
      original_processes sch = ws \<and> map descr (processes sch) = map descr ws \<and>
      (r = Inl IndexError \<or>
       r = get_metrics sch \<and> (\<forall>p \<in> set (processes sch). completion_time p \<noteq> None)))"
proof (intro conjI impI allI)
  show "Scheduler_init ws = \<lparr>original_processes = ws, processes = map clone ws\<rparr>"
    by (simp add: Scheduler_init_def reset_processes_def)
  show "map remaining_time (processes (Scheduler_init ws)) = map burst_time ws"
    by (simp add: Scheduler_init_def reset_processes_def clone_def)
next
  assume "run_to_completion pol"
  then obtain ord where sq: "single_queue pol = Some (ord, Full)"
    using run_to_completion_single by blast
  from full_policy_terminates[of ord "Scheduler_init ws"]
  obtain s where s: "policy_run ord Full (Scheduler_init ws) = Some s"
    "wf_inv ws s" "\<not> loop_cond s" by auto
  have r: "run_policy pol (Scheduler_init ws) = Some (get_metrics (the_scheduler s), the_scheduler s)"
    using run_policy_single[OF sq] s(1) by (simp add: finish_def)
  show "\<exists>r sch. run_policy pol (Scheduler_init ws) = Some (r, sch) \<and> r = get_metrics sch \<and>
         length (processes sch) = length ws \<and>
         (\<forall>p \<in> set (processes sch). completion_time p \<noteq> None)"
    using r wf_inv_final[OF s(2,3)] by (simp add: the_scheduler_def)
next
  fix r sch assume a: "run_policy pol (Scheduler_init ws) = Some (r, sch)"
  show "original_processes sch = ws" using run_policy_all_records(1)[OF a] by simp
  show "map descr (processes sch) = map descr ws" using run_policy_all_records(2)[OF a] by simp
  show "r = Inl IndexError \<or>
       r = get_metrics sch \<and> (\<forall>p \<in> set (processes sch). completion_time p \<noteq> None)"
    by (rule run_policy_all_records(3)[OF a])
qed

lemma fcfs_zero_burst_example:
  "run_policy FCFS (Scheduler_init
     [\<lparr>pid = 0, arrival_time = 0, burst_time = 0, priority = 0, remaining_time = 0,
        start_time = None, completion_time = None\<rparr>,
      \<lparr>pid = 1, arrival_time = 0, burst_time = 2, priority = 0, remaining_time = 0,
        start_time = None, completion_time = None\<rparr>]) =
   Some (Inr \<lparr>avg_turnaround_time = 1, avg_waiting_time = 0, throughput = 1,
               cpu_utilization = Finite 100\<rparr>,
     \<lparr>original_processes =
        [\<lparr>pid = 0, arrival_time = 0, burst_time = 0, priority = 0, remaining_time = 0,
           start_time = None, completion_time = None\<rparr>,
         \<lparr>pid = 1, arrival_time = 0, burst_time = 2, priority = 0, remaining_time = 0,
           start_time = None, completion_time = None\<rparr>],
      processes =
        [\<lparr>pid = 0, arrival_time = 0, burst_time = 0, priority = 0, remaining_time = 0,
           start_time = Some 0, completion_time = Some 0\<rparr>,
         \<lparr>pid = 1, arrival_time = 0, burst_time = 2, priority = 0, remaining_time = 0,
           start_time = Some 0, completion_time = Some 2\<rparr>]\<rparr>)"
  by (simp add: run_eval)

theorem no_descriptor_is_rejected_witness:
  "run_to_completion FCFS \<and>
   run_policy FCFS (Scheduler_init
     [\<lparr>pid = 0, arrival_time = 0, burst_time = 0, priority = 0, remaining_time = 0,
        start_time = None, completion_time = None\<rparr>,
      \<lparr>pid = 1, arrival_time = 0, burst_time = 2, priority = 0, remaining_time = 0,
        start_time = None, completion_time = None\<rparr>]) =
   Some (Inr \<lparr>avg_turnaround_time = 1, avg_waiting_time = 0, throughput = 1,
               cpu_utilization = Finite 100\<rparr>,
     \<lparr>original_processes =
        [\<lparr>pid = 0, arrival_time = 0, burst_time = 0, priority = 0, remaining_time = 0,
           start_time = None, completion_time = None\<rparr>,
         \<lparr>pid = 1, arrival_time = 0, burst_time = 2, priority = 0, remaining_time = 0,
           start_time = None, completion_time = None\<rparr>],
      processes =
        [\<lparr>pid = 0, arrival_time = 0, burst_time = 0, priority = 0, remaining_time = 0,
           start_time = Some 0, completion_time = Some 0\<rparr>,
         \<lparr>pid = 1, arrival_time = 0, burst_time = 2, priority = 0, remaining_time = 0,
           start_time = Some 0, completion_time = Some 2\<rparr>]\<rparr>) \<and>
   get_metrics
     \<lparr>original_processes =
        [\<lparr>pid = 0, arrival_time = 0, burst_time = 0, priority = 0, remaining_time = 0,
           start_time = None, completion_time = None\<rparr>,
         \<lparr>pid = 1, arrival_time = 0, burst_time = 2, priority = 0, remaining_time = 0,
           start_time = None, completion_time = None\<rparr>],
      processes =
        [\<lparr>pid = 0, arrival_time = 0, burst_time = 0, priority = 0, remaining_time = 0,
           start_time = Some 0, completion_time = Some 0\<rparr>,
         \<lparr>pid = 1, arrival_time = 0, burst_time = 2, priority = 0, remaining_time = 0,
           start_time = Some 0, completion_time = Some 2\<rparr>]\<rparr> =
   Inr \<lparr>avg_turnaround_time = 1, avg_waiting_time = 0, throughput = 1,
        cpu_utilization = Finite 100\<rparr>"
proof -
  have f: "run_to_completion FCFS" by (simp add: run_to_completion_def)
  from no_descriptor_is_rejected[of "[\<lparr>pid = 0, arrival_time = 0, burst_time = 0, priority = 0,
        remaining_time = 0, start_time = None, completion_time = None\<rparr>,
      \<lparr>pid = 1, arrival_time = 0, burst_time = 2, priority = 0, remaining_time = 0,
        start_time = None, completion_time = None\<rparr>]" FCFS] f fcfs_zero_burst_example
  show ?thesis by auto
qed

theorem burst_validation_counterexample:
  "burst_time \<lparr>pid = 0, arrival_time = 0, burst_time = 0, priority = 0, remaining_time = 0,
        start_time = None, completion_time = None\<rparr> \<le> 0 \<and>
   Scheduler_init
     [\<lparr>pid = 0, arrival_time = 0, burst_time = 0, priority = 0, remaining_time = 0,
        start_time = None, completion_time = None\<rparr>,
      \<lparr>pid = 1, arrival_time = 0, burst_time = 2, priority = 0, remaining_time = 0,
        start_time = None, completion_time = None\<rparr>] =
     \<lparr>original_processes =
        [\<lparr>pid = 0, arrival_time = 0, burst_time = 0, priority = 0, remaining_time = 0,
           start_time = None, completion_time = None\<rparr>,
         \<lparr>pid = 1, arrival_time = 0, burst_time = 2, priority = 0, remaining_time = 0,
           start_time = None, completion_time = None\<rparr>],
      processes =
        [\<lparr>pid = 0, arrival_time = 0, burst_time = 0, priority = 0, remaining_time = 0,
           start_time = None, completion_time = None\<rparr>,
         \<lparr>pid = 1, arrival_time = 0, burst_time = 2, priority = 0, remaining_time = 2,
           start_time = None, completion_time = None\<rparr>]\<rparr> \<and>
   run_policy FCFS (Scheduler_init
     [\<lparr>pid = 0, arrival_time = 0, burst_time = 0, priority = 0, remaining_time = 0,
        start_time = None, completion_time = None\<rparr>,
      \<lparr>pid = 1, arrival_time = 0, burst_time = 2, priority = 0, remaining_time = 0,
        start_time = None, completion_time = None\<rparr>]) =
   Some (Inr \<lparr>avg_turnaround_time = 1, avg_waiting_time = 0, throughput = 1,
               cpu_utilization = Finite 100\<rparr>,
     \<lparr>original_processes =
        [\<lparr>pid = 0, arrival_time = 0, burst_time = 0, priority = 0, remaining_time = 0,
           start_time = None, completion_time = None\<rparr>,
         \<lparr>pid = 1, arrival_time = 0, burst_time = 2, priority = 0, remaining_time = 0,
           start_time = None, completion_time = None\<rparr>],
      processes =
        [\<lparr>pid = 0, arrival_time = 0, burst_time = 0, priority = 0, remaining_time = 0,
           start_time = Some 0, completion_time = Some 0\<rparr>,
         \<lparr>pid = 1, arrival_time = 0, burst_time = 2, priority = 0, remaining_time = 0,
           start_time = Some 0, completion_time = Some 2\<rparr>]\<rparr>)"
  using fcfs_zero_burst_example
  by (simp add: Scheduler_init_def reset_processes_def clone_def)

subsection \<open>Stable sorting and the order of admission\<close>







subsection \<open>The admission order is kept among equal keys\<close>



lemma sort_key_of_set_start [simp]:
  "sort_key_of ord (set_start t p) = sort_key_of ord p"
  by (cases ord) (simp_all add: sort_key_of_def set_start_def)



lemma policy_run_trace:
  assumes "policy_run ord sl self = Some s"
  shows "\<exists>alog. policy_trace ord sl self s alog"
  using assms unfolding policy_run_def
  by (rule while_option_rule[where P = "\<lambda>s. \<exists>alog. policy_trace ord sl self s alog", rotated])
    (auto intro: policy_trace.intros)




end
